theory Spec2Isabelle
  imports Main "HOL-Library.Sublist"
begin

section \<open>Strings of the host language\<close>

text \<open>
  Strings are lists of characters. The helpers below embed the string methods of the
  host language that the two programs call: \<open>split\<close> with a separator string, \<open>join\<close>,
  \<open>startsWith\<close>, \<open>endsWith\<close>, \<open>str_includes\<close>, \<open>trim\<close>, \<open>trimEnd\<close>, \<open>toLowerCase\<close> and
  \<open>toUpperCase\<close>. Case mapping and white space are those of the ASCII range.

  \<open>js_split sep s\<close> cuts \<open>s\<close> at the non-overlapping occurrences of \<open>sep\<close>, found from the
  left; with the empty separator it yields the single characters. For a separator that is
  not empty the result always has a first piece, so the last branch of the \<open>case\<close> is never
  taken (\<open>js_split_nonempty\<close> below).
\<close>

fun js_split :: "string \<Rightarrow> string \<Rightarrow> string list" where
  "js_split sep [] = (if sep = [] then [] else [[]])"
| "js_split sep (x # xs) =
     (if sep = [] then map (\<lambda>c. [c]) (x # xs)
      else if prefix sep (x # xs) then [] # js_split sep (drop (length sep - 1) xs)
      else case js_split sep xs of
             piece # pieces \<Rightarrow> (x # piece) # pieces
           | [] \<Rightarrow> [[x]])"

fun js_join :: "string \<Rightarrow> string list \<Rightarrow> string" where
  "js_join sep [] = []"
| "js_join sep [x] = x"
| "js_join sep (x # y # ys) = x @ sep @ js_join sep (y # ys)"

definition startsWith :: "string \<Rightarrow> string \<Rightarrow> bool" where
  "startsWith s p = prefix p s"

definition endsWith :: "string \<Rightarrow> string \<Rightarrow> bool" where
  "endsWith s p = suffix p s"

definition str_includes :: "string \<Rightarrow> char \<Rightarrow> bool" where
  "str_includes s c = (c \<in> set s)"

definition is_space :: "char \<Rightarrow> bool" where
  "is_space c = (c \<in> set [CHR '' '', CHR 0x09, CHR 0x0A, CHR 0x0B, CHR 0x0C, CHR 0x0D])"

definition trimStart :: "string \<Rightarrow> string" where
  "trimStart s = dropWhile is_space s"

definition trimEnd :: "string \<Rightarrow> string" where
  "trimEnd s = rev (dropWhile is_space (rev s))"

definition trim :: "string \<Rightarrow> string" where
  "trim s = trimEnd (trimStart s)"

definition lower_char :: "char \<Rightarrow> char" where
  "lower_char c =
     (if 65 \<le> (of_char c :: nat) \<and> (of_char c :: nat) \<le> 90 then char_of (of_char c + (32::nat)) else c)"

definition upper_char :: "char \<Rightarrow> char" where
  "upper_char c =
     (if 97 \<le> (of_char c :: nat) \<and> (of_char c :: nat) \<le> 122 then char_of (of_char c - (32::nat)) else c)"

definition toLowerCase :: "string \<Rightarrow> string" where
  "toLowerCase s = map lower_char s"

definition toUpperCase :: "string \<Rightarrow> string" where
  "toUpperCase s = map upper_char s"

definition strip_braces :: "string \<Rightarrow> string" where
  "strip_braces s = filter (\<lambda>c. c \<noteq> CHR ''{'' \<and> c \<noteq> CHR ''}'') s"

section \<open>Path expressions (api-docs-generator)\<close>

text \<open>
  \<open>match_braces\<close> is the global match of the pattern \<open>{[^}]*}\<close>: scanning from the left,
  a match starts at an opening brace that is followed, somewhere, by a closing brace, and
  runs to the first such closing brace; the scan goes on behind the match.
\<close>

function match_braces :: "string \<Rightarrow> string list" where
  "match_braces [] = []"
| "match_braces (c # cs) =
     (if c = CHR ''{'' \<and> CHR ''}'' \<in> set cs
      then (c # takeWhile (\<lambda>d. d \<noteq> CHR ''}'') cs @ ''}'')
             # match_braces (tl (dropWhile (\<lambda>d. d \<noteq> CHR ''}'') cs))
      else match_braces cs)"
  by pat_completeness auto
termination
proof (relation "measure length")
  fix c :: char and cs :: string
  have "length (dropWhile (\<lambda>d. d \<noteq> CHR ''}'') cs) \<le> length cs"
    by (rule length_dropWhile_le)
  then show "(tl (dropWhile (\<lambda>d. d \<noteq> CHR ''}'') cs), c # cs) \<in> measure length"
    by simp
qed simp_all

definition extractPathParams :: "string \<Rightarrow> string list" where
  "extractPathParams pathStr = map strip_braces (match_braces pathStr)"

text \<open>
  \<open>extractQueryParams\<close> takes the second piece of the split at the question marks. A string
  that contains a question mark splits into at least two pieces, so the last branch of the
  \<open>case\<close> is never taken.
\<close>

definition extractQueryParams :: "string \<Rightarrow> string list" where
  "extractQueryParams pathStr =
     (if \<not> str_includes pathStr (CHR ''?'') then []
      else case js_split ''?'' pathStr of
             _ # queryStr # _ \<Rightarrow> map (\<lambda>q. hd (js_split ''='' q)) (js_split ''&'' queryStr)
           | _ \<Rightarrow> [])"

text \<open>
  The reading of the query-parameter rule that takes everything behind the first question
  mark: \<open>parseQueryParameters\<close> is written from the rule's wording and is compared with
  \<open>extractQueryParams\<close> below.
\<close>

definition parseQueryParameters :: "string \<Rightarrow> string list" where
  "parseQueryParameters rawPath =
     (if CHR ''?'' \<notin> set rawPath then []
      else map (takeWhile (\<lambda>c. c \<noteq> CHR ''=''))
             (js_split ''&'' (tl (dropWhile (\<lambda>c. c \<noteq> CHR ''?'') rawPath))))"

section \<open>Stub generation (api-docs-generator)\<close>

text \<open>
  \<open>generateParametersYaml\<close> runs two loops that append one block per parameter whose
  trimmed name is not empty; \<open>path_params_loop\<close> and \<open>query_params_loop\<close> are these loops,
  with the text built so far as first argument.
\<close>

definition path_param_block :: "string \<Rightarrow> string" where
  "path_param_block param =
     ''        - in: path\<newline>          name: '' @ param
       @ ''\<newline>          required: true\<newline>          type: string\<newline>''"

definition query_param_block :: "string \<Rightarrow> string" where
  "query_param_block param =
     ''        - in: query\<newline>          name: '' @ param
       @ ''\<newline>          type: string\<newline>''"

fun path_params_loop :: "string \<Rightarrow> string list \<Rightarrow> string" where
  "path_params_loop yaml [] = yaml"
| "path_params_loop yaml (param # rest) =
     path_params_loop (if trim param \<noteq> [] then yaml @ path_param_block param else yaml) rest"

fun query_params_loop :: "string \<Rightarrow> string list \<Rightarrow> string" where
  "query_params_loop yaml [] = yaml"
| "query_params_loop yaml (param # rest) =
     query_params_loop (if trim param \<noteq> [] then yaml @ query_param_block param else yaml) rest"

definition generateParametersYaml :: "string list \<Rightarrow> string list \<Rightarrow> string" where
  "generateParametersYaml pathParams queryParams =
     query_params_loop (path_params_loop [] pathParams) queryParams"

definition generateOpPath :: "string \<Rightarrow> string" where
  "generateOpPath pathStr =
     strip_braces (js_join ''-'' (filter (\<lambda>p. p \<noteq> []) (js_split ''/'' (hd (js_split ''?'' pathStr)))))"

fun replaceTemplateVars :: "string \<Rightarrow> (string \<times> string) list \<Rightarrow> string" where
  "replaceTemplateVars result [] = result"
| "replaceTemplateVars result ((key, val) # rest) =
     replaceTemplateVars (js_join val (js_split (''{{'' @ key @ ''}}'') result)) rest"

text \<open>
  The inputs of one \<open>generate\<close> run, as \<open>main\<close> has them once the prompts are answered and
  the template and the version of the main specification are read: \<open>rawPath\<close> is the path
  as first typed, \<open>pathOnly\<close> the path that passed validation.
\<close>

record stub_input =
  template :: string
  methodLower :: string
  rawPath :: string
  pathOnly :: string
  title :: string
  domain :: string
  author :: string
  apiVersion :: string

definition finalParamsYaml :: "string list \<Rightarrow> string list \<Rightarrow> string" where
  "finalParamsYaml pathParams queryParams =
     (let paramsYaml = generateParametersYaml pathParams queryParams
      in if trim paramsYaml \<noteq> [] then paramsYaml else ''        []\<newline>'')"

definition variables :: "stub_input \<Rightarrow> (string \<times> string) list" where
  "variables inp =
     (let pathParams = extractPathParams (pathOnly inp);
          queryParams = extractQueryParams (rawPath inp);
          opPath = generateOpPath (pathOnly inp)
      in [(''PATH'', hd (js_split ''?'' (pathOnly inp))),
          (''METHOD_LOWER'', methodLower inp),
          (''METHOD_UPPER'', toUpperCase (methodLower inp)),
          (''OP_PATH'', opPath),
          (''TITLE'', title inp),
          (''TAG'', domain inp),
          (''API_VERSION'', apiVersion inp),
          (''AUTHOR'', ''['' @ author inp @ ''](https://github.com/'' @ author inp @ '')''),
          (''PARAMETERS'', trimEnd (finalParamsYaml pathParams queryParams))])"

definition substituted :: "stub_input \<Rightarrow> string" where
  "substituted inp = replaceTemplateVars (template inp) (variables inp)"

definition stub_output :: "stub_input \<Rightarrow> string" where
  "stub_output inp =
     (let output = substituted inp
      in if \<not> endsWith output ''\<newline>'' then output @ ''\<newline>'' else output)"

definition trailing_newlines :: "string \<Rightarrow> nat" where
  "trailing_newlines s = length (takeWhile (\<lambda>c. c = CHR 0x0A) (rev s))"

section \<open>File paths of the runtime\<close>

text \<open>
  The POSIX path functions that the updater calls, on strings. \<open>norm_segments\<close> is the
  normalisation of a list of path segments with a stack of the segments kept so far (top
  first): empty segments and \<open>.\<close> are dropped, \<open>..\<close> removes the segment before it, and is
  kept only in a relative path that has nothing left to remove. \<open>cwd\<close> is the working
  directory of the process, an absolute path.
\<close>

fun norm_segments :: "bool \<Rightarrow> string list \<Rightarrow> string list \<Rightarrow> string list" where
  "norm_segments allowAboveRoot kept [] = rev kept"
| "norm_segments allowAboveRoot kept (seg # rest) =
     (if seg = [] \<or> seg = ''.'' then norm_segments allowAboveRoot kept rest
      else if seg = ''..'' then
        (case kept of
           seg' # below \<Rightarrow>
             if seg' \<noteq> ''..'' then norm_segments allowAboveRoot below rest
             else if allowAboveRoot then norm_segments allowAboveRoot (''..'' # kept) rest
             else norm_segments allowAboveRoot kept rest
         | [] \<Rightarrow>
             if allowAboveRoot then norm_segments allowAboveRoot [''..''] rest
             else norm_segments allowAboveRoot [] rest)
      else norm_segments allowAboveRoot (seg # kept) rest)"

definition isAbsolute :: "string \<Rightarrow> bool" where
  "isAbsolute p = (case p of [] \<Rightarrow> False | c # _ \<Rightarrow> c = CHR ''/'')"

definition path_normalize :: "string \<Rightarrow> string" where
  "path_normalize p =
     (if p = [] then ''.''
      else let trailing = (last p = CHR ''/'');
               body = js_join ''/'' (norm_segments (\<not> isAbsolute p) [] (js_split ''/'' p))
           in if body = [] then (if isAbsolute p then ''/'' else if trailing then ''./'' else ''.'')
              else (if isAbsolute p then ''/'' else []) @ body @ (if trailing then ''/'' else []))"

definition path_join :: "string list \<Rightarrow> string" where
  "path_join parts =
     (let joined = js_join ''/'' (filter (\<lambda>a. a \<noteq> []) parts)
      in if joined = [] then ''.'' else path_normalize joined)"

definition path_dirname :: "string \<Rightarrow> string" where
  "path_dirname p =
     (case p of
        [] \<Rightarrow> ''.''
      | c # r \<Rightarrow>
          (let r1 = rev (dropWhile (\<lambda>d. d = CHR ''/'') (rev r));
               r2 = rev (dropWhile (\<lambda>d. d \<noteq> CHR ''/'') (rev r1))
           in if r2 = [] then (if c = CHR ''/'' then ''/'' else ''.'')
              else if c = CHR ''/'' \<and> length r2 = 1 then ''//''
              else c # butlast r2))"

definition resolved_segments :: "string \<Rightarrow> string \<Rightarrow> string list" where
  "resolved_segments cwd p =
     norm_segments False [] (js_split ''/'' (if isAbsolute p then p else cwd @ ''/'' @ p))"

definition path_resolve :: "string \<Rightarrow> string \<Rightarrow> string" where
  "path_resolve cwd p = ''/'' @ js_join ''/'' (resolved_segments cwd p)"

fun drop_common :: "string list \<Rightarrow> string list \<Rightarrow> string list \<times> string list" where
  "drop_common (a # as) (b # bs) = (if a = b then drop_common as bs else (a # as, b # bs))"
| "drop_common as bs = (as, bs)"

definition path_relative :: "string \<Rightarrow> string \<Rightarrow> string \<Rightarrow> string" where
  "path_relative cwd src dst =
     (case drop_common (resolved_segments cwd src) (resolved_segments cwd dst) of
        (up, down) \<Rightarrow> js_join ''/'' (map (\<lambda>_. ''..'') up @ down))"

text \<open>A segment as the resolution of a path leaves it.\<close>

definition clean_segment :: "string \<Rightarrow> bool" where
  "clean_segment seg = (seg \<noteq> [] \<and> seg \<noteq> ''.'' \<and> seg \<noteq> ''..'' \<and> CHR ''/'' \<notin> set seg)"

section \<open>References (api-docs-update)\<close>

definition encodeJsonPointer :: "string \<Rightarrow> string" where
  "encodeJsonPointer str = concat (map (\<lambda>c. if c = CHR ''/'' then ''~1'' else [c]) str)"

definition getRelativePath :: "string \<Rightarrow> string \<Rightarrow> string \<Rightarrow> string" where
  "getRelativePath cwd filePath baseDir =
     (let realFilePath = path_resolve cwd filePath;
          realBaseDir = path_resolve cwd baseDir
      in if \<not> startsWith realFilePath realBaseDir then filePath
         else ''./'' @ path_relative cwd realBaseDir realFilePath)"

text \<open>
  The file is under the base directory when the segments of the resolved base are a
  prefix of the segments of the resolved file; this is the notion of the specification,
  stated on segments, against which \<open>getRelativePath\<close> is compared.
\<close>

definition is_under :: "string \<Rightarrow> string \<Rightarrow> string \<Rightarrow> bool" where
  "is_under cwd filePath baseDir =
     prefix (resolved_segments cwd baseDir) (resolved_segments cwd filePath)"

section \<open>Documents and the file system\<close>

text \<open>
  A loaded document is a value of the host language: null, a boolean, a number, a string,
  an array or an object. An object is the list of its own properties in enumeration order;
  assigning to a property that exists keeps its place, assigning to a new property appends
  it, and deleting removes it. Numbers are integers here: the programs only ask whether a
  value is falsy. A property read that finds nothing yields \<open>None\<close> (\<open>undefined\<close>).

  Property names that are canonical array indices (which the host language enumerates
  before all others) and names inherited from the prototype of every object are not
  distinguished from ordinary names; the keys of a \<open>paths\<close> mapping of an OpenAPI document
  begin with a slash and the method keys that are kept are HTTP method names.
\<close>

datatype yaml =
    YNull
  | YBool bool
  | YNum int
  | YStr string
  | YSeq "yaml list"
  | YMap "(string \<times> yaml) list"

fun truthy :: "yaml \<Rightarrow> bool" where
  "truthy YNull = False"
| "truthy (YBool b) = b"
| "truthy (YNum n) = (n \<noteq> 0)"
| "truthy (YStr s) = (s \<noteq> [])"
| "truthy (YSeq xs) = True"
| "truthy (YMap kvs) = True"

fun truthy_opt :: "yaml option \<Rightarrow> bool" where
  "truthy_opt None = False"
| "truthy_opt (Some v) = truthy v"

text \<open>\<open>is_object v\<close> is \<open>typeof v === 'object'\<close> for a truthy value.\<close>

fun is_object :: "yaml \<Rightarrow> bool" where
  "is_object (YSeq xs) = True"
| "is_object (YMap kvs) = True"
| "is_object v = False"

fun get_prop :: "yaml \<Rightarrow> string \<Rightarrow> yaml option" where
  "get_prop (YMap kvs) k = map_of kvs k"
| "get_prop v k = None"

fun obj_set :: "string \<Rightarrow> yaml \<Rightarrow> (string \<times> yaml) list \<Rightarrow> (string \<times> yaml) list" where
  "obj_set k v [] = [(k, v)]"
| "obj_set k v ((k', v') # rest) =
     (if k' = k then (k, v) # rest else (k', v') # obj_set k v rest)"

definition obj_delete :: "string \<Rightarrow> (string \<times> yaml) list \<Rightarrow> (string \<times> yaml) list" where
  "obj_delete k kvs = filter (\<lambda>kv. fst kv \<noteq> k) kvs"

text \<open>
  The properties that a \<open>for ... in\<close> loop visits, with their values: those of an object,
  and the indices of an array, written in decimal.
\<close>

fun show_nat :: "nat \<Rightarrow> string" where
  "show_nat n =
     (if n < 10 then [char_of (48 + n)] else show_nat (n div 10) @ [char_of (48 + n mod 10)])"

fun own_entries :: "yaml \<Rightarrow> (string \<times> yaml) list" where
  "own_entries (YMap kvs) = kvs"
| "own_entries (YSeq xs) = zip (map show_nat [0..<length xs]) xs"
| "own_entries v = []"

text \<open>
  The file system as the updater sees it. \<open>file_at\<close> gives what reading a path as text
  yields: nothing when the read fails, else a text that the YAML parser either rejects
  (\<open>Malformed\<close>) or loads as a document (\<open>Text\<close>); a document that has been written is read
  back as it was. \<open>tree_at\<close> gives the directory tree found at a path: \<open>Directory\<close> lists the
  entries in the order in which the system returns them, \<open>UnreadableDir\<close> is a directory
  whose listing fails, \<open>StatFails\<close> an entry whose status cannot be read (a dangling link
  fails with \<open>ENOENT\<close>). \<open>writable\<close> tells whether a write to a path succeeds.
\<close>

datatype file_content = Malformed | Text yaml

datatype errno = ENOENT | EACCES | ENOTDIR | ELOOP | EIO

datatype fsnode =
    RegularFile
  | Directory "(string \<times> fsnode) list"
  | UnreadableDir errno
  | StatFails errno

record filesystem =
  file_at :: "string \<Rightarrow> file_content option"
  tree_at :: "string \<Rightarrow> fsnode option"
  writable :: "string \<Rightarrow> bool"

datatype js_error = TypeError

datatype event =
    ErrorReadingYaml string
  | ErrorWritingYaml string
  | ErrorReadingDirectory errno
  | PathsDirNotFound string
  | FatalError js_error

section \<open>The updater (api-docs-update)\<close>

subsection \<open>walkDir\<close>

text \<open>
  Listing a directory and reading the status of an entry fail with an error number; the
  \<open>try\<close> block of \<open>walkDir\<close> catches every such failure of its own listing and of the status
  of its own entries, prints it unless it is \<open>ENOENT\<close>, and returns the list built so far.
  \<open>walk_node\<close> is \<open>walkDir\<close> on a path at which something is found: listing a regular file
  fails with \<open>ENOTDIR\<close>, listing an unreadable directory or an entry without status fails
  with the error of the node. \<open>walk_entries\<close> is the \<open>forEach\<close>: its first component is the
  failure that stopped it, if any. \<open>walkDir\<close> itself takes what is found at the path, which
  is nothing when the path does not exist. All three return the list of files and the
  lines printed to the error stream.
\<close>

definition report :: "errno \<Rightarrow> event list" where
  "report e = (if e \<noteq> ENOENT then [ErrorReadingDirectory e] else [])"

fun walk_node :: "string \<Rightarrow> fsnode \<Rightarrow> string list \<Rightarrow> string list \<times> event list"
  and walk_entries ::
    "string \<Rightarrow> (string \<times> fsnode) list \<Rightarrow> string list \<Rightarrow> errno option \<times> string list \<times> event list"
where
  "walk_node dirPath RegularFile fileList = (fileList, report ENOTDIR)"
| "walk_node dirPath (UnreadableDir e) fileList = (fileList, report e)"
| "walk_node dirPath (StatFails e) fileList = (fileList, report e)"
| "walk_node dirPath (Directory entries) fileList =
     (case walk_entries dirPath entries fileList of
        (None, fileList', log) \<Rightarrow> (fileList', log)
      | (Some e, fileList', log) \<Rightarrow> (fileList', log @ report e))"
| "walk_entries dirPath [] fileList = (None, fileList, [])"
| "walk_entries dirPath ((file, node) # rest) fileList =
     (case node of
        StatFails e \<Rightarrow> (Some e, fileList, [])
      | RegularFile \<Rightarrow>
          walk_entries dirPath rest
            (if endsWith file ''.yaml'' \<or> endsWith file ''.yml''
             then fileList @ [path_join [dirPath, file]] else fileList)
      | _ \<Rightarrow>
          (case walk_node (path_join [dirPath, file]) node fileList of
             (fileList', log) \<Rightarrow>
               (case walk_entries dirPath rest fileList' of
                  (thrown, fileList'', log') \<Rightarrow> (thrown, fileList'', log @ log'))))"

definition walkDir :: "string \<Rightarrow> fsnode option \<Rightarrow> string list \<Rightarrow> string list \<times> event list" where
  "walkDir dirPath node fileList =
     (case node of
        None \<Rightarrow> (fileList, report ENOENT)
      | Some n \<Rightarrow> walk_node dirPath n fileList)"

subsection \<open>loadYaml and saveYaml\<close>

text \<open>
  \<open>loadYaml\<close> catches every failure of reading and of parsing, prints it, and returns the
  empty object; a document that loads as a falsy value is replaced by the empty object as
  well. \<open>saveYaml\<close> returns whether the write succeeded.
\<close>

definition loadYaml :: "filesystem \<Rightarrow> string \<Rightarrow> yaml \<times> event list" where
  "loadYaml fs filePath =
     (case file_at fs filePath of
        None \<Rightarrow> (YMap [], [ErrorReadingYaml filePath])
      | Some Malformed \<Rightarrow> (YMap [], [ErrorReadingYaml filePath])
      | Some (Text doc) \<Rightarrow> (if truthy doc then doc else YMap [], []))"

definition saveYaml :: "filesystem \<Rightarrow> string \<Rightarrow> yaml \<Rightarrow> filesystem \<times> bool \<times> event list" where
  "saveYaml fs filePath data =
     (if writable fs filePath
      then (fs\<lparr>file_at := (file_at fs)(filePath \<mapsto> Text data)\<rparr>, True, [])
      else (fs, False, [ErrorWritingYaml filePath]))"

subsection \<open>Clearing and rebuilding the paths\<close>

text \<open>
  \<open>clear_paths\<close> is step 1 of \<open>main\<close> on the loaded document: the \<open>paths\<close> property is deleted
  when its value is truthy, and is then assigned the empty object. On an array the
  assignment creates a property that is not written to the file; on a string, a number or
  \<open>true\<close> it raises a type error (the module runs in strict mode).
\<close>

fun clear_paths :: "yaml \<Rightarrow> js_error + yaml" where
  "clear_paths (YMap kvs) =
     Inr (YMap (obj_set ''paths'' (YMap [])
                 (if truthy_opt (map_of kvs ''paths'') then obj_delete ''paths'' kvs else kvs)))"
| "clear_paths (YSeq xs) = Inr (YSeq xs)"
| "clear_paths v = Inl TypeError"

definition validMethods :: "string list" where
  "validMethods =
     [''get'', ''post'', ''put'', ''patch'', ''delete'', ''head'', ''options'', ''trace'', ''connect'']"

text \<open>
  \<open>add_ref\<close> is the body of the innermost loop behind the two skips: the entry of the path
  is created when it is missing or falsy, and the method is assigned the reference object.
  Reading \<open>apiDocs.paths[apiPath]\<close> raises a type error when the document has no \<open>paths\<close>
  (the reloaded document is an array, or is the empty object of a failed load). After step
  1 the \<open>paths\<close> of a reloaded object is an object whose entries, made here, are objects;
  the remaining shapes cannot be reached and are mapped to the type error.
\<close>

definition add_ref :: "yaml \<Rightarrow> string \<Rightarrow> string \<Rightarrow> string \<Rightarrow> js_error + yaml" where
  "add_ref apiDocs apiPath method ref =
     (case apiDocs of
        YMap kvs \<Rightarrow>
          (case map_of kvs ''paths'' of
             Some (YMap paths) \<Rightarrow>
               (let paths' = (if \<not> truthy_opt (map_of paths apiPath)
                              then obj_set apiPath (YMap []) paths else paths)
                in case map_of paths' apiPath of
                     Some (YMap methods) \<Rightarrow>
                       Inr (YMap (obj_set ''paths''
                              (YMap (obj_set apiPath
                                 (YMap (obj_set method (YMap [(''$ref'', YStr ref)]) methods))
                                 paths'))
                              kvs))
                   | _ \<Rightarrow> Inl TypeError)
           | _ \<Rightarrow> Inl TypeError)
      | _ \<Rightarrow> Inl TypeError)"

definition build_ref :: "string \<Rightarrow> string \<Rightarrow> string \<Rightarrow> string \<Rightarrow> string \<Rightarrow> string" where
  "build_ref cwd baseDir filePath apiPath method =
     (let encodedPath = encodeJsonPointer apiPath;
          relPath = getRelativePath cwd filePath baseDir
      in relPath @ ''#/paths/'' @ encodedPath @ ''/'' @ method)"

text \<open>
  The three nested loops of step 3, innermost first. The state is the main document and
  the count of references; a type error leaves the loops.
\<close>

fun methods_loop ::
  "string \<Rightarrow> string \<Rightarrow> string \<Rightarrow> string \<Rightarrow> string list \<Rightarrow> yaml \<times> nat \<Rightarrow> js_error + (yaml \<times> nat)"
where
  "methods_loop cwd baseDir filePath apiPath [] st = Inr st"
| "methods_loop cwd baseDir filePath apiPath (method # rest) (apiDocs, totalRefs) =
     (if startsWith method ''x-'' \<or> startsWith method ''$''
      then methods_loop cwd baseDir filePath apiPath rest (apiDocs, totalRefs)
      else if toLowerCase method \<notin> set validMethods
      then methods_loop cwd baseDir filePath apiPath rest (apiDocs, totalRefs)
      else (case add_ref apiDocs apiPath method (build_ref cwd baseDir filePath apiPath method) of
              Inl e \<Rightarrow> Inl e
            | Inr apiDocs' \<Rightarrow>
                methods_loop cwd baseDir filePath apiPath rest (apiDocs', totalRefs + 1)))"

fun paths_loop ::
  "string \<Rightarrow> string \<Rightarrow> string \<Rightarrow> (string \<times> yaml) list \<Rightarrow> yaml \<times> nat \<Rightarrow> js_error + (yaml \<times> nat)"
where
  "paths_loop cwd baseDir filePath [] st = Inr st"
| "paths_loop cwd baseDir filePath ((apiPath, pathObj) # rest) st =
     (if \<not> truthy pathObj \<or> \<not> is_object pathObj
      then paths_loop cwd baseDir filePath rest st
      else (case methods_loop cwd baseDir filePath apiPath (map fst (own_entries pathObj)) st of
              Inl e \<Rightarrow> Inl e
            | Inr st' \<Rightarrow> paths_loop cwd baseDir filePath rest st'))"

fun files_loop ::
  "filesystem \<Rightarrow> string \<Rightarrow> string \<Rightarrow> string list \<Rightarrow> (yaml \<times> nat) \<times> event list
     \<Rightarrow> js_error + ((yaml \<times> nat) \<times> event list)"
where
  "files_loop fs cwd baseDir [] st = Inr st"
| "files_loop fs cwd baseDir (filePath # rest) (st, log) =
     (case loadYaml fs filePath of
        (pathFile, log') \<Rightarrow>
          (case get_prop pathFile ''paths'' of
             None \<Rightarrow> files_loop fs cwd baseDir rest (st, log @ log')
           | Some paths \<Rightarrow>
               if \<not> truthy paths \<or> \<not> is_object paths
               then files_loop fs cwd baseDir rest (st, log @ log')
               else (case paths_loop cwd baseDir filePath (own_entries paths) st of
                       Inl e \<Rightarrow> Inl e
                     | Inr st' \<Rightarrow> files_loop fs cwd baseDir rest (st', log @ log'))))"

subsection \<open>main\<close>

text \<open>
  One run of the updater on a file system, with \<open>apiDocsPath\<close> the path of the main
  specification that the existence check has accepted. The result is the exit status, the
  file system left behind and the lines printed to the error stream. A type error raised
  inside the \<open>try\<close> block is caught, printed as fatal, and ends the run with status 1.
  \<open>main\<close> is step 1 (load, clear, save) followed by \<open>collect_and_rebuild\<close>, which is step 2
  (the paths directory must exist; the walk; the early exit when no file is found) followed
  by \<open>rebuild\<close>, which is step 3 (reload, the loops, save).
\<close>

datatype exit_status = Success | Failure

definition existsSync :: "filesystem \<Rightarrow> string \<Rightarrow> bool" where
  "existsSync fs p =
     (case tree_at fs p of None \<Rightarrow> False | Some (StatFails e) \<Rightarrow> False | Some n \<Rightarrow> True)"

definition rebuild ::
  "filesystem \<Rightarrow> string \<Rightarrow> string \<Rightarrow> string list \<Rightarrow> event list
     \<Rightarrow> exit_status \<times> filesystem \<times> event list"
where
  "rebuild fs cwd apiDocsPath pathFiles log =
     (case loadYaml fs apiDocsPath of
        (apiDocs, log1) \<Rightarrow>
          (case files_loop fs cwd (path_dirname apiDocsPath) pathFiles ((apiDocs, 0), log @ log1) of
             Inl e \<Rightarrow> (Failure, fs, log @ log1 @ [FatalError e])
           | Inr ((apiDocs', totalRefs), log2) \<Rightarrow>
               (case saveYaml fs apiDocsPath apiDocs' of
                  (fs', ok, log3) \<Rightarrow>
                    (if ok then Success else Failure, fs', log2 @ log3))))"

definition collect_and_rebuild ::
  "filesystem \<Rightarrow> string \<Rightarrow> string \<Rightarrow> event list \<Rightarrow> exit_status \<times> filesystem \<times> event list"
where
  "collect_and_rebuild fs cwd apiDocsPath log =
     (let pathsDir = path_join [path_dirname apiDocsPath, ''paths'']
      in if \<not> existsSync fs pathsDir
         then (Failure, fs, log @ [PathsDirNotFound pathsDir])
         else (case walkDir pathsDir (tree_at fs pathsDir) [] of
                 (pathFiles, log2) \<Rightarrow>
                   if pathFiles = [] then (Success, fs, log @ log2)
                   else rebuild fs cwd apiDocsPath pathFiles (log @ log2)))"

definition main :: "filesystem \<Rightarrow> string \<Rightarrow> string \<Rightarrow> exit_status \<times> filesystem \<times> event list" where
  "main fs cwd apiDocsPath =
     (case loadYaml fs apiDocsPath of
        (apiDocs, log0) \<Rightarrow>
          (case clear_paths apiDocs of
             Inl e \<Rightarrow> (Failure, fs, log0 @ [FatalError e])
           | Inr cleared \<Rightarrow>
               (case saveYaml fs apiDocsPath cleared of
                  (fs1, ok, log1) \<Rightarrow>
                    if \<not> ok then (Failure, fs1, log0 @ log1)
                    else collect_and_rebuild fs1 cwd apiDocsPath (log0 @ log1))))"

text \<open>The main specification that a run leaves on the file system.\<close>

definition main_spec_after :: "exit_status \<times> filesystem \<times> event list \<Rightarrow> string \<Rightarrow> file_content option" where
  "main_spec_after result apiDocsPath = file_at (fst (snd result)) apiDocsPath"

subsection \<open>Notions used to state the properties of a run\<close>

text \<open>
  \<open>kept_method\<close> is the negation of the two skips of the innermost loop. \<open>file_pairs\<close> lists
  the pairs of an API path and a kept method key that a path file defines, as the loops
  visit them. \<open>ref_at\<close> reads the entry of a pair in the \<open>paths\<close> of a document, and
  \<open>ref_object\<close> is the reference object that the loop assigns.
\<close>

definition kept_method :: "string \<Rightarrow> bool" where
  "kept_method method =
     (\<not> (startsWith method ''x-'' \<or> startsWith method ''$'')
      \<and> toLowerCase method \<in> set validMethods)"

definition entries_pairs :: "(string \<times> yaml) list \<Rightarrow> (string \<times> string) list" where
  "entries_pairs entries =
     concat (map (\<lambda>entry.
        if truthy (snd entry) \<and> is_object (snd entry)
        then map (Pair (fst entry)) (filter kept_method (map fst (own_entries (snd entry))))
        else []) entries)"

definition file_pairs :: "filesystem \<Rightarrow> string \<Rightarrow> (string \<times> string) list" where
  "file_pairs fs filePath =
     (case get_prop (fst (loadYaml fs filePath)) ''paths'' of
        None \<Rightarrow> []
      | Some paths \<Rightarrow>
          if truthy paths \<and> is_object paths then entries_pairs (own_entries paths) else [])"

definition ref_at :: "yaml \<Rightarrow> string \<Rightarrow> string \<Rightarrow> yaml option" where
  "ref_at doc apiPath method =
     (case get_prop doc ''paths'' of
        None \<Rightarrow> None
      | Some paths \<Rightarrow>
          (case get_prop paths apiPath of
             None \<Rightarrow> None
           | Some pathObj \<Rightarrow> get_prop pathObj method))"

definition ref_object :: "string \<Rightarrow> yaml" where
  "ref_object ref = YMap [(''$ref'', YStr ref)]"

text \<open>
  A document is \<open>rebuildable\<close> when it is an object whose \<open>paths\<close> is an object all of whose
  entries are objects: the shape that step 1 leaves and that every assignment of step 3
  keeps.
\<close>

fun is_YMap :: "yaml \<Rightarrow> bool" where
  "is_YMap (YMap kvs) = True"
| "is_YMap v = False"

definition rebuildable :: "yaml \<Rightarrow> bool" where
  "rebuildable doc =
     (case get_prop doc ''paths'' of
        Some (YMap paths) \<Rightarrow> list_all (\<lambda>entry. is_YMap (snd entry)) paths
      | _ \<Rightarrow> False)"

definition only_kept_methods :: "yaml \<Rightarrow> bool" where
  "only_kept_methods doc =
     (case get_prop doc ''paths'' of
        Some (YMap paths) \<Rightarrow>
          list_all (\<lambda>entry. list_all kept_method (map fst (own_entries (snd entry)))) paths
      | _ \<Rightarrow> True)"

subsection \<open>A small documentation tree\<close>

text \<open>
  The tree used to run the updater on concrete inputs: a main specification
  \<open>api/api-docs.yaml\<close> and two path files \<open>a.yaml\<close> and \<open>b.yaml\<close> under \<open>api/paths\<close>, listed in
  this order; every write succeeds. \<open>users_yaml\<close> defines \<open>get\<close> and \<open>POST\<close> on \<open>/x\<close> beside an
  extension key, a reference key and an unknown key; \<open>orders_yaml\<close> defines \<open>get\<close> on \<open>/x\<close>
  again and \<open>put\<close> on \<open>/y/z\<close>.
\<close>

definition operation :: yaml where
  "operation = YMap [(''summary'', YStr ''s'')]"

definition users_yaml :: file_content where
  "users_yaml =
     Text (YMap [(''paths'', YMap [(''/x'',
       YMap [(''get'', operation), (''x-internal'', operation), (''$ref'', YStr ''r''),
             (''foo'', operation), (''POST'', operation)])])])"

definition orders_yaml :: file_content where
  "orders_yaml =
     Text (YMap [(''paths'',
       YMap [(''/x'', YMap [(''get'', operation)]), (''/y/z'', YMap [(''put'', operation)])])])"

definition docs_tree :: "file_content \<Rightarrow> file_content \<Rightarrow> file_content \<Rightarrow> filesystem" where
  "docs_tree mainSpec a b =
     \<lparr>file_at = [''api/api-docs.yaml'' \<mapsto> mainSpec,
                  ''api/paths/a.yaml'' \<mapsto> a, ''api/paths/b.yaml'' \<mapsto> b],
      tree_at = [''api/paths'' \<mapsto> Directory [(''a.yaml'', RegularFile), (''b.yaml'', RegularFile)]],
      writable = (\<lambda>p. True)\<rparr>"

definition plain_spec :: file_content where
  "plain_spec = Text (YMap [(''openapi'', YStr ''3.0.0''), (''info'', YMap [(''version'', YStr ''1.0.0'')])])"

definition blank_paths_spec :: file_content where
  "blank_paths_spec =
     Text (YMap [(''openapi'', YStr ''3.0.0''), (''paths'', YNull),
                 (''info'', YMap [(''version'', YStr ''1.0.0'')])])"

section \<open>Properties\<close>

subsection \<open>Splitting and scanning\<close>

lemma js_split_nonempty: "sep \<noteq> [] \<Longrightarrow> js_split sep s \<noteq> []"
  by (induction s) (auto split: list.splits)

lemma js_split_char_hd: "hd (js_split [c] s) = takeWhile (\<lambda>d. d \<noteq> c) s"
  by (induction s) (auto split: list.splits simp: js_split_nonempty)

lemma js_split_char_tl:
  "c \<in> set s \<Longrightarrow> tl (js_split [c] s) = js_split [c] (tl (dropWhile (\<lambda>d. d \<noteq> c) s))"
  by (induction s) (auto split: list.splits)

lemma js_split_char_second:
  assumes "c \<in> set s"
  shows "\<exists>h t. js_split [c] s = h # takeWhile (\<lambda>d. d \<noteq> c) (tl (dropWhile (\<lambda>d. d \<noteq> c) s)) # t"
proof -
  let ?r = "tl (dropWhile (\<lambda>d. d \<noteq> c) s)"
  have ne: "js_split [c] s \<noteq> []" by (simp add: js_split_nonempty)
  have ne2: "js_split [c] ?r \<noteq> []" by (simp add: js_split_nonempty)
  have "js_split [c] s = hd (js_split [c] s) # tl (js_split [c] s)" using ne by simp
  also have "tl (js_split [c] s) = js_split [c] ?r" using assms by (rule js_split_char_tl)
  also have "js_split [c] ?r = hd (js_split [c] ?r) # tl (js_split [c] ?r)" using ne2 by simp
  finally show ?thesis by (auto simp: js_split_char_hd)
qed

lemma match_braces_skip: "CHR ''{'' \<notin> set pre \<Longrightarrow> match_braces (pre @ s) = match_braces s"
  by (induction pre) auto

lemma match_braces_no_close: "CHR ''}'' \<notin> set s \<Longrightarrow> match_braces s = []"
  by (induction s) auto

lemma takeWhile_until: "c \<notin> set p \<Longrightarrow> takeWhile (\<lambda>d. d \<noteq> c) (p @ c # rest) = p"
  by (induction p) auto

lemma dropWhile_until: "c \<notin> set p \<Longrightarrow> dropWhile (\<lambda>d. d \<noteq> c) (p @ c # rest) = c # rest"
  by (induction p) auto

lemma match_braces_open:
  "CHR ''}'' \<notin> set p \<Longrightarrow>
   match_braces (CHR ''{'' # p @ CHR ''}'' # rest) = (CHR ''{'' # p @ ''}'') # match_braces rest"
  by (simp add: takeWhile_until dropWhile_until)

lemma strip_braces_id: "CHR ''{'' \<notin> set p \<Longrightarrow> CHR ''}'' \<notin> set p \<Longrightarrow> strip_braces p = p"
  unfolding strip_braces_def by (induction p) auto

lemma count_le_one_rest:
  "count_list s c \<le> 1 \<Longrightarrow> c \<notin> set (tl (dropWhile (\<lambda>d. d \<noteq> c) s))"
  by (induction s) (auto simp: count_list_0_iff)

subsection \<open>Path parameters\<close>

text \<open>
  Claim C7. For every path string, \<open>extractPathParams\<close> returns the substrings delimited
  by an opening and the next closing brace, braces stripped, in order of appearance and
  with duplicates kept: a string whose first opening brace is followed by a closing brace
  yields the text between them and then the parameters of the rest; a string with no
  such pair yields nothing. An empty pair yields the empty string, and the two examples
  of the specification evaluate as stated.
\<close>

theorem extractPathParams_delimited:
  "(CHR ''{'' \<notin> set pre \<and> CHR ''}'' \<notin> set p \<longrightarrow>
      extractPathParams (pre @ ''{'' @ p @ ''}'' @ rest) = strip_braces p # extractPathParams rest)
   \<and> (CHR ''{'' \<notin> set q \<and> CHR ''}'' \<notin> set q \<longrightarrow> strip_braces q = q)
   \<and> (CHR ''{'' \<notin> set pre' \<and> CHR ''}'' \<notin> set rest' \<longrightarrow> extractPathParams (pre' @ rest') = [])
   \<and> extractPathParams ''/a/{x}/b/{y}'' = [''x'', ''y'']
   \<and> extractPathParams ''/a/{}/b'' = ['''']"
proof (intro conjI impI)
  assume "CHR ''{'' \<notin> set pre \<and> CHR ''}'' \<notin> set p"
  then show "extractPathParams (pre @ ''{'' @ p @ ''}'' @ rest) = strip_braces p # extractPathParams rest"
    by (simp del: match_braces.simps
             add: extractPathParams_def match_braces_skip match_braces_open strip_braces_def)
next
  assume "CHR ''{'' \<notin> set q \<and> CHR ''}'' \<notin> set q"
  then show "strip_braces q = q" by (simp add: strip_braces_id)
next
  assume "CHR ''{'' \<notin> set pre' \<and> CHR ''}'' \<notin> set rest'"
  then show "extractPathParams (pre' @ rest') = []"
    by (simp add: extractPathParams_def match_braces_skip match_braces_no_close)
next
  show "extractPathParams ''/a/{x}/b/{y}'' = [''x'', ''y'']"
    by (simp add: extractPathParams_def strip_braces_def)
next
  show "extractPathParams ''/a/{}/b'' = ['''']"
    by (simp add: extractPathParams_def strip_braces_def)
qed

text \<open>The path with the same parameter twice: both occurrences are returned.\<close>

theorem extractPathParams_delimited_witness:
  "extractPathParams ''/users/{id}/posts/{id}'' = [''id'', ''id'']
   \<and> strip_braces ''id'' = ''id''
   \<and> extractPathParams ''/users/{id'' = []"
  using extractPathParams_delimited [of "''/users/''" "''id''" "''/posts/{id}''" "''id''" "''/users/''" "''{id''"]
        extractPathParams_delimited [of "''/posts/''" "''id''" "[]" "''id''" "''/posts/''" "''{id''"]
  by (simp add: extractPathParams_def)

subsection \<open>Query parameters\<close>

lemma takeWhile_absent: "c \<notin> set xs \<Longrightarrow> takeWhile (\<lambda>d. d \<noteq> c) xs = xs"
  by (induction xs) auto

lemma extractQueryParams_no_mark: "CHR ''?'' \<notin> set s \<Longrightarrow> extractQueryParams s = []"
  by (simp add: extractQueryParams_def str_includes_def)

lemma extractQueryParams_mark:
  assumes "CHR ''?'' \<in> set s"
  shows "extractQueryParams s =
      map (takeWhile (\<lambda>c. c \<noteq> CHR ''=''))
        (js_split ''&'' (takeWhile (\<lambda>c. c \<noteq> CHR ''?'')
                           (tl (dropWhile (\<lambda>c. c \<noteq> CHR ''?'') s))))"
proof -
  from js_split_char_second [OF assms] obtain h t where
    "js_split ''?'' s =
       h # takeWhile (\<lambda>d. d \<noteq> CHR ''?'') (tl (dropWhile (\<lambda>d. d \<noteq> CHR ''?'') s)) # t"
    by blast
  with assms show ?thesis
    by (simp add: extractQueryParams_def str_includes_def js_split_char_hd)
qed

text \<open>
  Claim C8, as amended. For every raw path string, \<open>extractQueryParams\<close> returns the empty
  list when the string contains no question mark; otherwise it takes the substring between
  the first question mark and the next one (the whole remainder when there is no second
  question mark), splits it on \<open>&\<close>, and returns for each segment the text before that
  segment's first \<open>=\<close>, a segment without \<open>=\<close> contributing its full text. On a string
  with at most one question mark this is the rule as the specification words it.
\<close>

theorem extractQueryParams_between_marks:
  "extractQueryParams s =
     (if CHR ''?'' \<notin> set s then []
      else map (takeWhile (\<lambda>c. c \<noteq> CHR ''=''))
             (js_split ''&'' (takeWhile (\<lambda>c. c \<noteq> CHR ''?'')
                                (tl (dropWhile (\<lambda>c. c \<noteq> CHR ''?'') s)))))
   \<and> (count_list s (CHR ''?'') \<le> 1 \<longrightarrow> extractQueryParams s = parseQueryParameters s)"
proof (intro conjI impI)
  show "extractQueryParams s =
     (if CHR ''?'' \<notin> set s then []
      else map (takeWhile (\<lambda>c. c \<noteq> CHR ''=''))
             (js_split ''&'' (takeWhile (\<lambda>c. c \<noteq> CHR ''?'')
                                (tl (dropWhile (\<lambda>c. c \<noteq> CHR ''?'') s)))))"
    by (cases "CHR ''?'' \<in> set s")
       (simp_all add: extractQueryParams_mark extractQueryParams_no_mark)
next
  assume one: "count_list s (CHR ''?'') \<le> 1"
  show "extractQueryParams s = parseQueryParameters s"
  proof (cases "CHR ''?'' \<in> set s")
    case True
    have tw: "takeWhile (\<lambda>c. c \<noteq> CHR ''?'') (tl (dropWhile (\<lambda>c. c \<noteq> CHR ''?'') s))
            = tl (dropWhile (\<lambda>c. c \<noteq> CHR ''?'') s)"
      using one by (intro takeWhile_absent count_le_one_rest)
    show ?thesis
      unfolding extractQueryParams_mark [OF True] parseQueryParameters_def tw
      using True by simp
  next
    case False
    then show ?thesis
      by (simp add: extractQueryParams_no_mark parseQueryParameters_def)
  qed
qed

text \<open>A path with one question mark and two query parameters.\<close>

theorem extractQueryParams_between_marks_witness:
  "count_list ''/items?page=2&sort'' (CHR ''?'') \<le> 1
   \<and> extractQueryParams ''/items?page=2&sort'' = parseQueryParameters ''/items?page=2&sort''"
proof -
  have c: "count_list ''/items?page=2&sort'' (CHR ''?'') \<le> 1" by simp
  from extractQueryParams_between_marks [of "''/items?page=2&sort''"]
  have "count_list ''/items?page=2&sort'' (CHR ''?'') \<le> 1
          \<longrightarrow> extractQueryParams ''/items?page=2&sort'' = parseQueryParameters ''/items?page=2&sort''"
    by (rule conjunct2)
  with c show ?thesis by (intro conjI) (rule c, rule mp)
qed

text \<open>
  Claim C8 as stated fails on a string with two question marks: the text behind the second
  one is dropped, so the parameter \<open>z\<close> is lost.
\<close>

theorem extractQueryParams_counterexample:
  "extractQueryParams ''/a?x=1?y=2&z'' = [''x'']
   \<and> parseQueryParameters ''/a?x=1?y=2&z'' = [''x'', ''z'']
   \<and> extractQueryParams ''/a?x=1?y=2&z'' \<noteq> parseQueryParameters ''/a?x=1?y=2&z''"
  by (simp add: extractQueryParams_def parseQueryParameters_def str_includes_def)

subsection \<open>Parameters fragment and trailing newline of the stub\<close>









lemma trailing_newlines_snoc:
  "trailing_newlines (s @ ''\<newline>'') = Suc (trailing_newlines s)"
  by (simp add: trailing_newlines_def)

lemma endsWith_newline_iff: "endsWith s ''\<newline>'' \<longleftrightarrow> 0 < trailing_newlines s"
proof (cases s rule: rev_cases)
  case Nil
  then show ?thesis by (simp add: endsWith_def trailing_newlines_def)
next
  case (snoc ys y)
  then show ?thesis by (auto simp: endsWith_def trailing_newlines_def)
qed

text \<open>
  Claim C2, as amended. For every template and all substitution values the generated
  output ends with a newline: a newline is appended when the substituted template does not
  end with one, and nothing is removed, so the output has the trailing newlines of the
  substituted template, and one when that has none.
\<close>

theorem stub_output_trailing_newlines:
  "trailing_newlines (stub_output inp) = max 1 (trailing_newlines (substituted inp))
   \<and> endsWith (stub_output inp) ''\<newline>''"
proof -
  have a: "trailing_newlines (stub_output inp) = max 1 (trailing_newlines (substituted inp))"
    by (simp add: stub_output_def Let_def endsWith_newline_iff trailing_newlines_snoc)
  then have "0 < trailing_newlines (stub_output inp)" by simp
  then have "endsWith (stub_output inp) ''\<newline>''" by (simp add: endsWith_newline_iff)
  with a show ?thesis by (rule conjI)
qed

text \<open>
  Claim C2 as stated fails for a template that ends with an empty line: both newlines are
  kept.
\<close>

theorem stub_output_counterexample:
  "trailing_newlines
     (stub_output \<lparr>template = ''summary: {{TITLE}}\<newline>\<newline>'', methodLower = ''get'',
        rawPath = ''/users/{id}'', pathOnly = ''/users/{id}'', title = ''List'',
        domain = ''users'', author = ''me'', apiVersion = ''1.0''\<rparr>) = 2
   \<and> stub_output \<lparr>template = ''summary: {{TITLE}}\<newline>\<newline>'', methodLower = ''get'',
        rawPath = ''/users/{id}'', pathOnly = ''/users/{id}'', title = ''List'',
        domain = ''users'', author = ''me'', apiVersion = ''1.0''\<rparr>
       = ''summary: List\<newline>\<newline>''"
  by code_simp

subsection \<open>Objects and the innermost assignment\<close>

lemma map_of_obj_set: "map_of (obj_set k v kvs) k' = (if k' = k then Some v else map_of kvs k')"
  by (induction kvs) auto

lemma map_fst_obj_set:
  "map fst (obj_set k v kvs) = (if k \<in> set (map fst kvs) then map fst kvs else map fst kvs @ [k])"
proof (induction kvs)
  case Nil
  show ?case by simp
next
  case (Cons kv kvs)
  obtain k' v' where kv: "kv = (k', v')" by (cases kv)
  show ?case
  proof (cases "k' = k")
    case True
    with kv show ?thesis by simp
  next
    case False
    with kv Cons show ?thesis by (cases "k \<in> set (map fst kvs)") simp_all
  qed
qed

lemma keys_obj_set: "set (map fst (obj_set k v kvs)) = insert k (set (map fst kvs))"
  by (auto simp: map_fst_obj_set)

lemma list_all_obj_set:
  "list_all P kvs \<Longrightarrow> P (k, v) \<Longrightarrow> list_all P (obj_set k v kvs)"
  by (induction kvs) auto

lemma rebuildable_cases:
  assumes "rebuildable doc"
  obtains kvs paths where "doc = YMap kvs" "map_of kvs ''paths'' = Some (YMap paths)"
    "list_all (\<lambda>entry. is_YMap (snd entry)) paths"
proof -
  from assms obtain kvs where d: "doc = YMap kvs"
    by (cases doc) (auto simp: rebuildable_def)
  with assms obtain paths where "map_of kvs ''paths'' = Some (YMap paths)"
    "list_all (\<lambda>entry. is_YMap (snd entry)) paths"
    by (auto simp: rebuildable_def split: option.splits yaml.splits)
  with d show ?thesis by (rule that)
qed

lemma entry_is_YMap:
  "list_all (\<lambda>entry. is_YMap (snd entry)) paths \<Longrightarrow> map_of paths a = Some v \<Longrightarrow> \<exists>ms. v = YMap ms"
  by (induction paths) (auto split: if_splits elim: is_YMap.elims)

lemma add_ref_rebuildable:
  assumes "rebuildable doc"
  shows "\<exists>doc'. add_ref doc a m r = Inr doc' \<and> rebuildable doc'
           \<and> (only_kept_methods doc \<and> kept_method m \<longrightarrow> only_kept_methods doc')
           \<and> (\<forall>a' m'. ref_at doc' a' m' = (if a' = a \<and> m' = m then Some (ref_object r) else ref_at doc a' m'))"
proof -
  from assms obtain kvs paths where d: "doc = YMap kvs"
    and p: "map_of kvs ''paths'' = Some (YMap paths)"
    and all: "list_all (\<lambda>entry. is_YMap (snd entry)) paths"
    by (rule rebuildable_cases)
  define paths' where "paths' = (if \<not> truthy_opt (map_of paths a) then obj_set a (YMap []) paths else paths)"
  have all': "list_all (\<lambda>entry. is_YMap (snd entry)) paths'"
    using all by (simp add: paths'_def list_all_obj_set)
  have "\<exists>ms. map_of paths' a = Some (YMap ms) \<and> (\<forall>m'. map_of ms m' = (case map_of paths a of None \<Rightarrow> None | Some po \<Rightarrow> get_prop po m'))"
  proof (cases "map_of paths a")
    case None
    then show ?thesis by (simp add: paths'_def map_of_obj_set)
  next
    case (Some v)
    with all obtain ms where "v = YMap ms" by (blast dest: entry_is_YMap)
    with Some show ?thesis by (simp add: paths'_def)
  qed
  then obtain ms where ms: "map_of paths' a = Some (YMap ms)"
    and old: "\<And>m'. map_of ms m' = (case map_of paths a of None \<Rightarrow> None | Some po \<Rightarrow> get_prop po m')"
    by blast
  have other: "\<And>a'. a' \<noteq> a \<Longrightarrow> map_of paths' a' = map_of paths a'"
    by (simp add: paths'_def map_of_obj_set)
  let ?K = "\<lambda>entry. list_all kept_method (map fst (own_entries (snd entry)))"
  let ?new = "YMap (obj_set m (YMap [(''$ref'', YStr r)]) ms)"
  let ?doc' = "YMap (obj_set ''paths'' (YMap (obj_set a ?new paths')) kvs)"
  have r: "add_ref doc a m r = Inr ?doc'"
    using d p ms by (simp add: add_ref_def paths'_def Let_def)
  have g: "rebuildable ?doc'"
    using all' by (simp add: rebuildable_def map_of_obj_set list_all_obj_set)
  have e: "ref_at ?doc' a' m' = (if a' = a \<and> m' = m then Some (ref_object r) else ref_at doc a' m')" for a' m'
    using d p other [of a'] old [of m']
    by (simp add: ref_at_def map_of_obj_set ref_object_def)
  have k: "only_kept_methods ?doc'" if ok: "only_kept_methods doc" and km: "kept_method m"
  proof -
    from ok d p have kp: "list_all ?K paths" by (simp add: only_kept_methods_def)
    then have kp': "list_all ?K paths'" by (simp add: paths'_def list_all_obj_set)
    from ms have "(a, YMap ms) \<in> set paths'" by (rule map_of_SomeD)
    with kp' have "?K (a, YMap ms)" by (auto simp: list_all_iff)
    then have "list_all kept_method (map fst ms)" by simp
    with km have "list_all kept_method (map fst (obj_set m (YMap [(''$ref'', YStr r)]) ms))"
      by (simp add: map_fst_obj_set)
    then have "?K (a, ?new)" by simp
    with kp' have "list_all ?K (obj_set a ?new paths')" by (rule list_all_obj_set)
    then show ?thesis by (simp add: only_kept_methods_def map_of_obj_set)
  qed
  from r g e k show ?thesis by blast
qed

lemma methods_loop_effect:
  assumes "rebuildable (fst st)"
  shows "\<exists>st'. methods_loop cwd b f a ms st = Inr st' \<and> rebuildable (fst st')
           \<and> (only_kept_methods (fst st) \<longrightarrow> only_kept_methods (fst st'))
           \<and> (\<forall>a' m'. ref_at (fst st') a' m' =
                 (if a' = a \<and> m' \<in> set (filter kept_method ms)
                  then Some (ref_object (build_ref cwd b f a m')) else ref_at (fst st) a' m'))"
  using assms
proof (induction ms arbitrary: st)
  case Nil
  then show ?case by simp
next
  case (Cons m ms)
  obtain doc n where st: "st = (doc, n)" by (cases st)
  show ?case
  proof (cases "kept_method m")
    case False
    then have "methods_loop cwd b f a (m # ms) st = methods_loop cwd b f a ms st"
      by (auto simp: st kept_method_def)
    with Cons.IH [OF Cons.prems] False show ?thesis by simp
  next
    case True
    from Cons.prems st have "rebuildable doc" by simp
    from add_ref_rebuildable [OF this, of a m "build_ref cwd b f a m"]
    obtain doc' where ar: "add_ref doc a m (build_ref cwd b f a m) = Inr doc'"
      and g: "rebuildable doc'"
      and k: "only_kept_methods doc \<and> kept_method m \<longrightarrow> only_kept_methods doc'"
      and e: "\<And>a' m'. ref_at doc' a' m' =
                (if a' = a \<and> m' = m then Some (ref_object (build_ref cwd b f a m)) else ref_at doc a' m')"
      by blast
    from True ar have step: "methods_loop cwd b f a (m # ms) st = methods_loop cwd b f a ms (doc', n + 1)"
      by (auto simp: st kept_method_def)
    from g have "rebuildable (fst (doc', n + 1))" by simp
    from Cons.IH [OF this] obtain st' where
      r: "methods_loop cwd b f a ms (doc', n + 1) = Inr st'" and g': "rebuildable (fst st')"
      and k': "only_kept_methods doc' \<longrightarrow> only_kept_methods (fst st')"
      and e': "\<And>a' m'. ref_at (fst st') a' m' =
                 (if a' = a \<and> m' \<in> set (filter kept_method ms)
                  then Some (ref_object (build_ref cwd b f a m')) else ref_at doc' a' m')"
      by auto
    have "ref_at (fst st') a' m' =
            (if a' = a \<and> m' \<in> set (filter kept_method (m # ms))
             then Some (ref_object (build_ref cwd b f a m')) else ref_at (fst st) a' m')" for a' m'
      using True by (auto simp: e' e st)
    moreover have "only_kept_methods (fst st) \<longrightarrow> only_kept_methods (fst st')"
      using k k' True st by simp
    ultimately show ?thesis using step r g' by simp
  qed
qed

lemma paths_loop_effect:
  assumes "rebuildable (fst st)"
  shows "\<exists>st'. paths_loop cwd b f entries st = Inr st' \<and> rebuildable (fst st')
           \<and> (only_kept_methods (fst st) \<longrightarrow> only_kept_methods (fst st'))
           \<and> (\<forall>a' m'. ref_at (fst st') a' m' =
                 (if (a', m') \<in> set (entries_pairs entries)
                  then Some (ref_object (build_ref cwd b f a' m')) else ref_at (fst st) a' m'))"
  using assms
proof (induction entries arbitrary: st)
  case Nil
  then show ?case by (simp add: entries_pairs_def)
next
  case (Cons entry entries)
  obtain a po where en: "entry = (a, po)" by (cases entry)
  show ?case
  proof (cases "truthy po \<and> is_object po")
    case False
    then have "paths_loop cwd b f (entry # entries) st = paths_loop cwd b f entries st"
      by (auto simp: en)
    moreover from False have "entries_pairs (entry # entries) = entries_pairs entries"
      by (auto simp: en entries_pairs_def)
    ultimately show ?thesis using Cons.IH [OF Cons.prems] by simp
  next
    case True
    from methods_loop_effect [OF Cons.prems, of cwd b f a "map fst (own_entries po)"]
    obtain st1 where r1: "methods_loop cwd b f a (map fst (own_entries po)) st = Inr st1"
      and g1: "rebuildable (fst st1)"
      and k1: "only_kept_methods (fst st) \<longrightarrow> only_kept_methods (fst st1)"
      and e1: "\<And>a' m'. ref_at (fst st1) a' m' =
                 (if a' = a \<and> m' \<in> set (filter kept_method (map fst (own_entries po)))
                  then Some (ref_object (build_ref cwd b f a m')) else ref_at (fst st) a' m')"
      by auto
    from True r1 have step: "paths_loop cwd b f (entry # entries) st = paths_loop cwd b f entries st1"
      by (simp add: en)
    from Cons.IH [OF g1] obtain st' where r: "paths_loop cwd b f entries st1 = Inr st'"
      and g': "rebuildable (fst st')"
      and k': "only_kept_methods (fst st1) \<longrightarrow> only_kept_methods (fst st')"
      and e': "\<And>a' m'. ref_at (fst st') a' m' =
                 (if (a', m') \<in> set (entries_pairs entries)
                  then Some (ref_object (build_ref cwd b f a' m')) else ref_at (fst st1) a' m')"
      by auto
    from True have ep: "set (entries_pairs (entry # entries)) =
        Pair a ` set (filter kept_method (map fst (own_entries po))) \<union> set (entries_pairs entries)"
      by (simp add: en entries_pairs_def)
    have "ref_at (fst st') a' m' =
            (if (a', m') \<in> set (entries_pairs (entry # entries))
             then Some (ref_object (build_ref cwd b f a' m')) else ref_at (fst st) a' m')" for a' m'
      unfolding ep e' e1 by auto
    with step r g' k1 k' show ?thesis by simp
  qed
qed


lemma find_append_case:
  "find P (xs @ ys) = (case find P xs of Some x \<Rightarrow> Some x | None \<Rightarrow> find P ys)"
  by (induction xs) auto

lemma file_step:
  assumes "rebuildable (fst st)"
  shows "\<exists>st1. files_loop fs cwd b (f # rest) (st, log) =
                 files_loop fs cwd b rest (st1, log @ snd (loadYaml fs f))
           \<and> rebuildable (fst st1)
           \<and> (only_kept_methods (fst st) \<longrightarrow> only_kept_methods (fst st1))
           \<and> (\<forall>a m. ref_at (fst st1) a m =
                 (if (a, m) \<in> set (file_pairs fs f)
                  then Some (ref_object (build_ref cwd b f a m)) else ref_at (fst st) a m))"
proof -
  obtain pathFile log' where l: "loadYaml fs f = (pathFile, log')" by (cases "loadYaml fs f")
  show ?thesis
  proof (cases "get_prop pathFile ''paths''")
    case None
    with l assms show ?thesis by (intro exI [of _ st]) (simp add: file_pairs_def)
  next
    case (Some paths)
    show ?thesis
    proof (cases "truthy paths \<and> is_object paths")
      case False
      with l Some assms show ?thesis by (intro exI [of _ st]) (auto simp: file_pairs_def)
    next
      case True
      from paths_loop_effect [OF assms, of cwd b f "own_entries paths"]
      obtain st1 where r: "paths_loop cwd b f (own_entries paths) st = Inr st1"
        and g: "rebuildable (fst st1)"
        and k: "only_kept_methods (fst st) \<longrightarrow> only_kept_methods (fst st1)"
        and e: "\<And>a m. ref_at (fst st1) a m =
                 (if (a, m) \<in> set (entries_pairs (own_entries paths))
                  then Some (ref_object (build_ref cwd b f a m)) else ref_at (fst st) a m)"
        by auto
      from l Some True r have eq: "files_loop fs cwd b (f # rest) (st, log) =
          files_loop fs cwd b rest (st1, log @ snd (loadYaml fs f))"
        by simp
      from l Some True have "file_pairs fs f = entries_pairs (own_entries paths)"
        by (simp add: file_pairs_def)
      with e have e2: "\<forall>a m. ref_at (fst st1) a m =
                 (if (a, m) \<in> set (file_pairs fs f)
                  then Some (ref_object (build_ref cwd b f a m)) else ref_at (fst st) a m)"
        by simp
      from eq g k e2 show ?thesis by blast
    qed
  qed
qed

lemma files_loop_effect:
  assumes "rebuildable (fst st)"
  shows "\<exists>st' log'. files_loop fs cwd b files (st, log) = Inr (st', log') \<and> rebuildable (fst st')
           \<and> (only_kept_methods (fst st) \<longrightarrow> only_kept_methods (fst st'))
           \<and> (\<forall>a m. ref_at (fst st') a m =
                 (case find (\<lambda>f. (a, m) \<in> set (file_pairs fs f)) (rev files) of
                    Some f \<Rightarrow> Some (ref_object (build_ref cwd b f a m))
                  | None \<Rightarrow> ref_at (fst st) a m))"
  using assms
proof (induction files arbitrary: st log)
  case Nil
  then show ?case by simp
next
  case (Cons f files)
  from file_step [OF Cons.prems, of fs cwd b f files log]
  obtain st1 where s: "files_loop fs cwd b (f # files) (st, log) =
                 files_loop fs cwd b files (st1, log @ snd (loadYaml fs f))"
    and g: "rebuildable (fst st1)"
    and k: "only_kept_methods (fst st) \<longrightarrow> only_kept_methods (fst st1)"
    and e: "\<And>a m. ref_at (fst st1) a m =
                 (if (a, m) \<in> set (file_pairs fs f)
                  then Some (ref_object (build_ref cwd b f a m)) else ref_at (fst st) a m)"
    by auto
  from Cons.IH [OF g, of "log @ snd (loadYaml fs f)"]
  obtain st' log' where r: "files_loop fs cwd b files (st1, log @ snd (loadYaml fs f)) = Inr (st', log')"
    and g': "rebuildable (fst st')"
    and k': "only_kept_methods (fst st1) \<longrightarrow> only_kept_methods (fst st')"
    and e': "\<And>a m. ref_at (fst st') a m =
                 (case find (\<lambda>f. (a, m) \<in> set (file_pairs fs f)) (rev files) of
                    Some f \<Rightarrow> Some (ref_object (build_ref cwd b f a m))
                  | None \<Rightarrow> ref_at (fst st1) a m)"
    by blast
  have e2: "\<forall>a m. ref_at (fst st') a m =
                 (case find (\<lambda>f. (a, m) \<in> set (file_pairs fs f)) (rev (f # files)) of
                    Some f \<Rightarrow> Some (ref_object (build_ref cwd b f a m))
                  | None \<Rightarrow> ref_at (fst st) a m)"
    by (simp add: e' e find_append_case split: option.splits)
  have r2: "files_loop fs cwd b (f # files) (st, log) = Inr (st', log')"
    using s r by (simp only:)
  have k2: "only_kept_methods (fst st) \<longrightarrow> only_kept_methods (fst st')"
    using k k' by blast
  from r2 g' k2 e2 show ?case by blast
qed


lemma loadYaml_other:
  "f \<noteq> p \<Longrightarrow> loadYaml (fs\<lparr>file_at := (file_at fs)(p \<mapsto> c)\<rparr>) f = loadYaml fs f"
  by (simp add: loadYaml_def)

lemma file_pairs_other:
  "f \<noteq> p \<Longrightarrow> file_pairs (fs\<lparr>file_at := (file_at fs)(p \<mapsto> c)\<rparr>) f = file_pairs fs f"
  by (simp add: file_pairs_def loadYaml_other)

lemma clear_paths_rebuildable:
  "clear_paths (YMap kvs) = Inr doc \<Longrightarrow> rebuildable doc \<and> only_kept_methods doc \<and> truthy doc"
  by (auto simp: rebuildable_def only_kept_methods_def map_of_obj_set)

lemma loadYaml_written:
  "truthy doc \<Longrightarrow> loadYaml (fs\<lparr>file_at := (file_at fs)(p \<mapsto> Text doc)\<rparr>) p = (doc, [])"
  by (simp add: loadYaml_def)

lemma rebuild_effect:
  assumes "rebuildable doc" "truthy doc" "file_at fs p = Some (Text doc)" "writable fs p"
  shows "\<exists>fs' log' doc'. rebuild fs cwd p files log = (Success, fs', log')
           \<and> file_at fs' p = Some (Text doc') \<and> rebuildable doc'
           \<and> (only_kept_methods doc \<longrightarrow> only_kept_methods doc')
           \<and> (\<forall>a m. ref_at doc' a m =
                 (case find (\<lambda>f. (a, m) \<in> set (file_pairs fs f)) (rev files) of
                    Some f \<Rightarrow> Some (ref_object (build_ref cwd (path_dirname p) f a m))
                  | None \<Rightarrow> ref_at doc a m))"
proof -
  from assms have l: "loadYaml fs p = (doc, [])" by (simp add: loadYaml_def)
  have "\<exists>st' log'. files_loop fs cwd (path_dirname p) files ((doc, 0), log @ []) = Inr (st', log')
           \<and> rebuildable (fst st')
           \<and> (only_kept_methods doc \<longrightarrow> only_kept_methods (fst st'))
           \<and> (\<forall>a m. ref_at (fst st') a m =
                 (case find (\<lambda>f. (a, m) \<in> set (file_pairs fs f)) (rev files) of
                    Some f \<Rightarrow> Some (ref_object (build_ref cwd (path_dirname p) f a m))
                  | None \<Rightarrow> ref_at doc a m))"
    using files_loop_effect [of "(doc, 0)" fs cwd "path_dirname p" files "log @ []"] assms(1)
    unfolding fst_conv by blast
  then obtain st' log' where r: "files_loop fs cwd (path_dirname p) files ((doc, 0), log @ []) = Inr (st', log')"
    and g: "rebuildable (fst st')"
    and k: "only_kept_methods doc \<longrightarrow> only_kept_methods (fst st')"
    and e: "\<forall>a m. ref_at (fst st') a m =
                 (case find (\<lambda>f. (a, m) \<in> set (file_pairs fs f)) (rev files) of
                    Some f \<Rightarrow> Some (ref_object (build_ref cwd (path_dirname p) f a m))
                  | None \<Rightarrow> ref_at doc a m)"
    by blast
  obtain doc' n where st': "st' = (doc', n)" by (cases st')
  from l r st' assms(4) have a: "rebuild fs cwd p files log =
      (Success, fs\<lparr>file_at := (file_at fs)(p \<mapsto> Text doc')\<rparr>, log')"
    by (simp add: rebuild_def saveYaml_def)
  have b: "file_at (fs\<lparr>file_at := (file_at fs)(p \<mapsto> Text doc')\<rparr>) p = Some (Text doc')"
    by simp
  from g st' have g': "rebuildable doc'" by simp
  from k st' have k': "only_kept_methods doc \<longrightarrow> only_kept_methods doc'" by simp
  from e st' have e': "\<forall>a m. ref_at doc' a m =
                 (case find (\<lambda>f. (a, m) \<in> set (file_pairs fs f)) (rev files) of
                    Some f \<Rightarrow> Some (ref_object (build_ref cwd (path_dirname p) f a m))
                  | None \<Rightarrow> ref_at doc a m)" by simp
  from a b g' k' e' show ?thesis by blast
qed

subsection \<open>A run of the updater\<close>

lemma main_not_writable:
  "\<not> writable fs p \<Longrightarrow> fst (main fs cwd p) = Failure"
  by (simp add: main_def saveYaml_def split: prod.splits sum.splits)


lemma main_run:
  assumes "fst (loadYaml fs p) = YMap kvs" "writable fs p"
  shows "\<exists>cleared. rebuildable cleared \<and> only_kept_methods cleared \<and> truthy cleared
           \<and> (\<forall>a m. ref_at cleared a m = None)
           \<and> main fs cwd p =
               (if \<not> existsSync fs (path_join [path_dirname p, ''paths''])
                then (Failure, fs\<lparr>file_at := (file_at fs)(p \<mapsto> Text cleared)\<rparr>,
                      snd (loadYaml fs p) @ [PathsDirNotFound (path_join [path_dirname p, ''paths''])])
                else if fst (walkDir (path_join [path_dirname p, ''paths''])
                               (tree_at fs (path_join [path_dirname p, ''paths''])) []) = []
                then (Success, fs\<lparr>file_at := (file_at fs)(p \<mapsto> Text cleared)\<rparr>,
                      snd (loadYaml fs p)
                      @ snd (walkDir (path_join [path_dirname p, ''paths''])
                               (tree_at fs (path_join [path_dirname p, ''paths''])) []))
                else rebuild (fs\<lparr>file_at := (file_at fs)(p \<mapsto> Text cleared)\<rparr>) cwd p
                       (fst (walkDir (path_join [path_dirname p, ''paths''])
                               (tree_at fs (path_join [path_dirname p, ''paths''])) []))
                       (snd (loadYaml fs p)
                        @ snd (walkDir (path_join [path_dirname p, ''paths''])
                               (tree_at fs (path_join [path_dirname p, ''paths''])) [])))"
proof -
  let ?c = "YMap (obj_set ''paths'' (YMap [])
                 (if truthy_opt (map_of kvs ''paths'') then obj_delete ''paths'' kvs else kvs))"
  have c: "clear_paths (YMap kvs) = Inr ?c" by simp
  from clear_paths_rebuildable [OF c] have g: "rebuildable ?c" "only_kept_methods ?c" "truthy ?c"
    by blast+
  have n: "\<forall>a m. ref_at ?c a m = None" by (simp add: ref_at_def map_of_obj_set)
  obtain d l where ld: "loadYaml fs p = (d, l)" by (cases "loadYaml fs p")
  with assms(1) have d: "d = YMap kvs" by simp
  have m: "main fs cwd p =
               (if \<not> existsSync fs (path_join [path_dirname p, ''paths''])
                then (Failure, fs\<lparr>file_at := (file_at fs)(p \<mapsto> Text ?c)\<rparr>,
                      snd (loadYaml fs p) @ [PathsDirNotFound (path_join [path_dirname p, ''paths''])])
                else if fst (walkDir (path_join [path_dirname p, ''paths''])
                               (tree_at fs (path_join [path_dirname p, ''paths''])) []) = []
                then (Success, fs\<lparr>file_at := (file_at fs)(p \<mapsto> Text ?c)\<rparr>,
                      snd (loadYaml fs p)
                      @ snd (walkDir (path_join [path_dirname p, ''paths''])
                               (tree_at fs (path_join [path_dirname p, ''paths''])) []))
                else rebuild (fs\<lparr>file_at := (file_at fs)(p \<mapsto> Text ?c)\<rparr>) cwd p
                       (fst (walkDir (path_join [path_dirname p, ''paths''])
                               (tree_at fs (path_join [path_dirname p, ''paths''])) []))
                       (snd (loadYaml fs p)
                        @ snd (walkDir (path_join [path_dirname p, ''paths''])
                               (tree_at fs (path_join [path_dirname p, ''paths''])) [])))"
    using assms(2) ld d
    by (simp add: main_def collect_and_rebuild_def saveYaml_def Let_def existsSync_def
          split: prod.splits)
  from g n m show ?thesis by blast
qed

lemma main_effect:
  assumes "fst (loadYaml fs p) = YMap kvs" "writable fs p"
    and "existsSync fs (path_join [path_dirname p, ''paths''])"
    and "fst (walkDir (path_join [path_dirname p, ''paths''])
                (tree_at fs (path_join [path_dirname p, ''paths''])) []) = files"
  shows "\<exists>fs' log doc. main fs cwd p = (Success, fs', log) \<and> file_at fs' p = Some (Text doc)
           \<and> rebuildable doc \<and> only_kept_methods doc
           \<and> (p \<notin> set files \<longrightarrow> (\<forall>a m. ref_at doc a m =
                 (case find (\<lambda>f. (a, m) \<in> set (file_pairs fs f)) (rev files) of
                    Some f \<Rightarrow> Some (ref_object (build_ref cwd (path_dirname p) f a m))
                  | None \<Rightarrow> None)))"
proof -
  from main_run [OF assms(1,2), of cwd] obtain cleared where
    g: "rebuildable cleared" and k: "only_kept_methods cleared" and t: "truthy cleared"
    and n: "\<forall>a m. ref_at cleared a m = None"
    and m: "main fs cwd p =
               (if files = []
                then (Success, fs\<lparr>file_at := (file_at fs)(p \<mapsto> Text cleared)\<rparr>,
                      snd (loadYaml fs p)
                      @ snd (walkDir (path_join [path_dirname p, ''paths''])
                               (tree_at fs (path_join [path_dirname p, ''paths''])) []))
                else rebuild (fs\<lparr>file_at := (file_at fs)(p \<mapsto> Text cleared)\<rparr>) cwd p files
                       (snd (loadYaml fs p)
                        @ snd (walkDir (path_join [path_dirname p, ''paths''])
                               (tree_at fs (path_join [path_dirname p, ''paths''])) [])))"
    using assms(3,4) by auto
  let ?fs1 = "fs\<lparr>file_at := (file_at fs)(p \<mapsto> Text cleared)\<rparr>"
  show ?thesis
  proof (cases "files = []")
    case True
    have "file_at ?fs1 p = Some (Text cleared)" by simp
    moreover from True n have "\<forall>a m. ref_at cleared a m =
                 (case find (\<lambda>f. (a, m) \<in> set (file_pairs fs f)) (rev files) of
                    Some f \<Rightarrow> Some (ref_object (build_ref cwd (path_dirname p) f a m))
                  | None \<Rightarrow> None)" by simp
    moreover from True m have "main fs cwd p = (Success, ?fs1,
                      snd (loadYaml fs p)
                      @ snd (walkDir (path_join [path_dirname p, ''paths''])
                               (tree_at fs (path_join [path_dirname p, ''paths''])) []))" by simp
    ultimately show ?thesis using g k by blast
  next
    case False
    have f1: "file_at ?fs1 p = Some (Text cleared)" and w1: "writable ?fs1 p"
      using assms(2) by simp_all
    from rebuild_effect [OF g t f1 w1, of cwd files]
    obtain fs' log' doc' where r: "rebuild ?fs1 cwd p files
              (snd (loadYaml fs p)
                        @ snd (walkDir (path_join [path_dirname p, ''paths''])
                               (tree_at fs (path_join [path_dirname p, ''paths''])) [])) = (Success, fs', log')"
      and fa: "file_at fs' p = Some (Text doc')" and g': "rebuildable doc'"
      and k': "only_kept_methods cleared \<longrightarrow> only_kept_methods doc'"
      and e: "\<forall>a m. ref_at doc' a m =
                 (case find (\<lambda>f. (a, m) \<in> set (file_pairs ?fs1 f)) (rev files) of
                    Some f \<Rightarrow> Some (ref_object (build_ref cwd (path_dirname p) f a m))
                  | None \<Rightarrow> ref_at cleared a m)"
      by blast
    have e': "\<forall>a m. ref_at doc' a m =
                 (case find (\<lambda>f. (a, m) \<in> set (file_pairs fs f)) (rev files) of
                    Some f \<Rightarrow> Some (ref_object (build_ref cwd (path_dirname p) f a m))
                  | None \<Rightarrow> None)" if nf: "p \<notin> set files"
    proof -
      have "find (\<lambda>f. (a, m) \<in> set (file_pairs ?fs1 f)) (rev files)
              = find (\<lambda>f. (a, m) \<in> set (file_pairs fs f)) (rev files)" for a m
      proof (intro find_cong refl)
        fix x assume "x \<in> set (rev files)"
        with nf have "x \<noteq> p" by auto
        then show "((a, m) \<in> set (file_pairs ?fs1 x)) = ((a, m) \<in> set (file_pairs fs x))"
          by (simp add: file_pairs_other)
      qed
      with e n show ?thesis by (simp split: option.splits)
    qed
    from False m r have "main fs cwd p = (Success, fs', log')" by simp
    with fa g' k k' e' show ?thesis by blast
  qed
qed

lemma main_Success_doc:
  assumes "fst (loadYaml fs p) = YMap kvs" "main fs cwd p = (Success, fs', log)"
  shows "\<exists>doc. file_at fs' p = Some (Text doc) \<and> rebuildable doc \<and> only_kept_methods doc"
proof -
  have w: "writable fs p"
  proof (rule ccontr)
    assume "\<not> writable fs p"
    then have "fst (main fs cwd p) = Failure" by (rule main_not_writable)
    with assms(2) show False by simp
  qed
  have ex: "existsSync fs (path_join [path_dirname p, ''paths''])"
  proof (rule ccontr)
    assume "\<not> existsSync fs (path_join [path_dirname p, ''paths''])"
    with main_run [OF assms(1) w, of cwd] have "fst (main fs cwd p) = Failure" by auto
    with assms(2) show False by simp
  qed
  from main_effect [OF assms(1) w ex refl, of cwd] assms(2) show ?thesis by auto
qed

lemma kept_in_entry:
  assumes "only_kept_methods doc" "rebuildable doc" "get_prop doc ''paths'' = Some paths"
    "get_prop paths apiPath = Some pathObj" "m \<in> set (map fst (own_entries pathObj))"
  shows "kept_method m"
proof -
  from assms(2,3) obtain pm where pm: "paths = YMap pm"
    by (auto simp: rebuildable_def split: option.splits yaml.splits)
  with assms(1,3) have all: "list_all (\<lambda>entry. list_all kept_method (map fst (own_entries (snd entry)))) pm"
    by (simp add: only_kept_methods_def)
  from assms(4) pm have "(apiPath, pathObj) \<in> set pm" by (auto dest: map_of_SomeD)
  with all have "list_all kept_method (map fst (own_entries pathObj))" by (auto simp: list_all_iff)
  with assms(5) show ?thesis by (auto simp: list_all_iff)
qed


subsection \<open>Skipped method keys\<close>

text \<open>
  Claim C5. In the rebuild, a method key that starts with \<open>x-\<close> or \<open>$\<close>, or whose lower-case
  form is not one of the nine method names, is skipped: the loop goes on with the state
  unchanged. Hence in the main specification that a successful run leaves (the main
  specification having loaded as a mapping), every method key of every entry of \<open>paths\<close> is a
  recognised method name without such a prefix; \<open>x-internal\<close>, \<open>$ref\<close> and \<open>foo\<close> never
  become entries.
\<close>

theorem skipped_method_keys:
  "(startsWith method ''x-'' \<or> startsWith method ''$'' \<or> toLowerCase method \<notin> set validMethods \<longrightarrow>
      methods_loop cwd baseDir filePath apiPath (method # rest) st
        = methods_loop cwd baseDir filePath apiPath rest st)
   \<and> (fst (loadYaml fs p) = YMap kvs \<and> main fs cwd p = (Success, fs', log)
        \<and> file_at fs' p = Some (Text doc) \<and> get_prop doc ''paths'' = Some paths
        \<and> get_prop paths apiPath' = Some pathObj \<and> m \<in> set (map fst (own_entries pathObj)) \<longrightarrow>
      \<not> startsWith m ''x-'' \<and> \<not> startsWith m ''$'' \<and> toLowerCase m \<in> set validMethods)
   \<and> \<not> kept_method ''x-internal'' \<and> \<not> kept_method ''$ref'' \<and> \<not> kept_method ''foo''"
proof (intro conjI impI)
  assume "startsWith method ''x-'' \<or> startsWith method ''$'' \<or> toLowerCase method \<notin> set validMethods"
  then show "methods_loop cwd baseDir filePath apiPath (method # rest) st
        = methods_loop cwd baseDir filePath apiPath rest st"
    by (cases st) auto
next
  assume a: "fst (loadYaml fs p) = YMap kvs \<and> main fs cwd p = (Success, fs', log)
        \<and> file_at fs' p = Some (Text doc) \<and> get_prop doc ''paths'' = Some paths
        \<and> get_prop paths apiPath' = Some pathObj \<and> m \<in> set (map fst (own_entries pathObj))"
  then obtain doc' where "file_at fs' p = Some (Text doc')" "rebuildable doc'" "only_kept_methods doc'"
    using main_Success_doc [of fs p kvs cwd fs' log] by blast
  with a have "rebuildable doc" "only_kept_methods doc" by auto
  with a have k: "kept_method m" by (blast intro: kept_in_entry)
  from k show "\<not> startsWith m ''x-''" by (simp add: kept_method_def)
  from k show "\<not> startsWith m ''$''" by (simp add: kept_method_def)
  from k show "toLowerCase m \<in> set validMethods" by (simp add: kept_method_def)
next
  show "\<not> kept_method ''x-internal''" by (simp add: kept_method_def startsWith_def)
  show "\<not> kept_method ''$ref''" by (simp add: kept_method_def startsWith_def)
  show "\<not> kept_method ''foo''" by code_simp
qed

text \<open>
  The run on the small tree: the three keys of \<open>a.yaml\<close> that are not methods leave no entry,
  and \<open>POST\<close> is kept with its own spelling.
\<close>

theorem skipped_method_keys_witness:
  "methods_loop ''/work'' ''api'' ''api/paths/a.yaml'' ''/x'' [''x-internal'', ''$ref'', ''foo'']
       (YMap [], 0) = Inr (YMap [], 0)
   \<and> fst (main (docs_tree plain_spec users_yaml orders_yaml) ''/work'' ''api/api-docs.yaml'') = Success
   \<and> main_spec_after (main (docs_tree plain_spec users_yaml orders_yaml) ''/work'' ''api/api-docs.yaml'')
        ''api/api-docs.yaml''
      = Some (Text (YMap [(''openapi'', YStr ''3.0.0''), (''info'', YMap [(''version'', YStr ''1.0.0'')]),
          (''paths'', YMap [
             (''/x'', YMap [(''get'', ref_object ''./paths/b.yaml#/paths/~1x/get''),
                            (''POST'', ref_object ''./paths/a.yaml#/paths/~1x/POST'')]),
             (''/y/z'', YMap [(''put'', ref_object ''./paths/b.yaml#/paths/~1y~1z/put'')])])]))
   \<and> toLowerCase ''POST'' \<in> set validMethods"
proof -
  let ?T = "docs_tree plain_spec users_yaml orders_yaml"
  let ?r = "main ?T ''/work'' ''api/api-docs.yaml''"
  let ?entry = "YMap [(''get'', ref_object ''./paths/b.yaml#/paths/~1x/get''),
                      (''POST'', ref_object ''./paths/a.yaml#/paths/~1x/POST'')]"
  let ?paths = "YMap [(''/x'', ?entry),
                      (''/y/z'', YMap [(''put'', ref_object ''./paths/b.yaml#/paths/~1y~1z/put'')])]"
  let ?doc = "YMap [(''openapi'', YStr ''3.0.0''), (''info'', YMap [(''version'', YStr ''1.0.0'')]),
                    (''paths'', ?paths)]"
  have a1: "startsWith ''x-internal'' ''x-'' \<or> startsWith ''x-internal'' ''$''
              \<or> toLowerCase ''x-internal'' \<notin> set validMethods"
    by (simp add: startsWith_def)
  have a2: "startsWith ''$ref'' ''x-'' \<or> startsWith ''$ref'' ''$''
              \<or> toLowerCase ''$ref'' \<notin> set validMethods"
    by (simp add: startsWith_def)
  have a3: "startsWith ''foo'' ''x-'' \<or> startsWith ''foo'' ''$''
              \<or> toLowerCase ''foo'' \<notin> set validMethods"
    by code_simp
  have s1: "methods_loop ''/work'' ''api'' ''api/paths/a.yaml'' ''/x'' [''x-internal'', ''$ref'', ''foo'']
              (YMap [], 0)
            = methods_loop ''/work'' ''api'' ''api/paths/a.yaml'' ''/x'' [''$ref'', ''foo''] (YMap [], 0)"
    using skipped_method_keys [of "''x-internal''" "''/work''" "''api''" "''api/paths/a.yaml''" "''/x''"
        "[''$ref'', ''foo'']" "(YMap [], 0)"] a1 by blast
  have s2: "methods_loop ''/work'' ''api'' ''api/paths/a.yaml'' ''/x'' [''$ref'', ''foo''] (YMap [], 0)
            = methods_loop ''/work'' ''api'' ''api/paths/a.yaml'' ''/x'' [''foo''] (YMap [], 0)"
    using skipped_method_keys [of "''$ref''" "''/work''" "''api''" "''api/paths/a.yaml''" "''/x''"
        "[''foo'']" "(YMap [], 0)"] a2 by blast
  have s3: "methods_loop ''/work'' ''api'' ''api/paths/a.yaml'' ''/x'' [''foo''] (YMap [], 0)
            = methods_loop ''/work'' ''api'' ''api/paths/a.yaml'' ''/x'' [] (YMap [], 0)"
    using skipped_method_keys [of "''foo''" "''/work''" "''api''" "''api/paths/a.yaml''" "''/x''"
        "[]" "(YMap [], 0)"] a3 by blast
  have s4: "methods_loop ''/work'' ''api'' ''api/paths/a.yaml'' ''/x'' [] (YMap [], 0) = Inr (YMap [], 0)"
    by simp
  have c1: "methods_loop ''/work'' ''api'' ''api/paths/a.yaml'' ''/x'' [''x-internal'', ''$ref'', ''foo'']
              (YMap [], 0) = Inr (YMap [], 0)"
    by (rule trans [OF s1], rule trans [OF s2], rule trans [OF s3], rule s4)
  have h1: "fst (loadYaml ?T ''api/api-docs.yaml'')
              = YMap [(''openapi'', YStr ''3.0.0''), (''info'', YMap [(''version'', YStr ''1.0.0'')])]"
    by code_simp
  have c2: "fst ?r = Success" by code_simp
  have c3: "main_spec_after ?r ''api/api-docs.yaml'' = Some (Text ?doc)" by code_simp
  from c2 have h2: "?r = (Success, fst (snd ?r), snd (snd ?r))"
    by (metis prod.collapse)
  from c3 have h3: "file_at (fst (snd ?r)) ''api/api-docs.yaml'' = Some (Text ?doc)"
    by (simp only: main_spec_after_def)
  have h4: "get_prop ?doc ''paths'' = Some ?paths" by simp
  have h5: "get_prop ?paths ''/x'' = Some ?entry" by simp
  have h6: "''POST'' \<in> set (map fst (own_entries ?entry))" by simp
  have c4: "toLowerCase ''POST'' \<in> set validMethods"
    using skipped_method_keys [where fs = ?T and p = "''api/api-docs.yaml''" and cwd = "''/work''"
        and fs' = "fst (snd ?r)" and log = "snd (snd ?r)" and doc = ?doc and paths = ?paths
        and apiPath' = "''/x''" and pathObj = ?entry and m = "''POST''"
        and kvs = "[(''openapi'', YStr ''3.0.0''), (''info'', YMap [(''version'', YStr ''1.0.0'')])]"]
      h1 h2 h3 h4 h5 h6 by blast
  from c1 c2 c3 c4 show ?thesis by (intro conjI)
qed

subsection \<open>Two files defining the same operation\<close>



subsection \<open>Documents that cannot be read or parsed\<close>




subsection \<open>Running the updater twice\<close>

lemma obj_set_absent: "k \<notin> set (map fst kvs) \<Longrightarrow> obj_set k v kvs = kvs @ [(k, v)]"
  by (induction kvs) auto

lemma obj_set_last: "k \<notin> set (map fst K) \<Longrightarrow> obj_set k v (K @ [(k, w)]) = K @ [(k, v)]"
  by (induction K) auto

lemma obj_delete_last: "k \<notin> set (map fst K) \<Longrightarrow> obj_delete k (K @ [(k, w)]) = K"
  by (induction K) (auto simp: obj_delete_def)

lemma obj_delete_absent: "k \<notin> set (map fst (obj_delete k kvs))"
  by (auto simp: obj_delete_def)

lemma obj_delete_id: "map_of kvs k = None \<Longrightarrow> obj_delete k kvs = kvs"
  by (induction kvs) (auto simp: obj_delete_def split: if_splits)

lemma map_of_last: "k \<notin> set (map fst K) \<Longrightarrow> map_of (K @ [(k, w)]) k = Some w"
  by (induction K) auto

lemma add_ref_framed:
  assumes "''paths'' \<notin> set (map fst K)" "add_ref (YMap (K @ [(''paths'', YMap P)])) a m r = Inr doc'"
  shows "\<exists>P'. doc' = YMap (K @ [(''paths'', YMap P')])"
  using assms
  by (auto simp: add_ref_def Let_def map_of_last obj_set_last split: option.splits yaml.splits if_splits)

lemma methods_loop_framed:
  assumes "''paths'' \<notin> set (map fst K)"
  shows "methods_loop cwd b f a ms (YMap (K @ [(''paths'', YMap P)]), n) = Inr (doc', n')
           \<Longrightarrow> \<exists>P'. doc' = YMap (K @ [(''paths'', YMap P')])"
proof (induction ms arbitrary: P n)
  case Nil
  then show ?case by auto
next
  case (Cons m ms)
  show ?case
  proof (cases "kept_method m")
    case False
    with Cons.prems have "methods_loop cwd b f a ms (YMap (K @ [(''paths'', YMap P)]), n) = Inr (doc', n')"
      by (auto simp: kept_method_def split: if_splits)
    then show ?thesis by (rule Cons.IH)
  next
    case True
    with Cons.prems obtain d1 where a1: "add_ref (YMap (K @ [(''paths'', YMap P)])) a m (build_ref cwd b f a m) = Inr d1"
      and r: "methods_loop cwd b f a ms (d1, n + 1) = Inr (doc', n')"
      by (auto simp: kept_method_def split: sum.splits)
    from add_ref_framed [OF assms a1] obtain P1 where "d1 = YMap (K @ [(''paths'', YMap P1)])" by blast
    with r show ?thesis by (auto intro: Cons.IH)
  qed
qed

lemma paths_loop_framed:
  assumes "''paths'' \<notin> set (map fst K)"
  shows "paths_loop cwd b f es (YMap (K @ [(''paths'', YMap P)]), n) = Inr (doc', n')
           \<Longrightarrow> \<exists>P'. doc' = YMap (K @ [(''paths'', YMap P')])"
proof (induction es arbitrary: P n)
  case Nil
  then show ?case by auto
next
  case (Cons e es)
  obtain a po where e: "e = (a, po)" by (cases e)
  show ?case
  proof (cases "truthy po \<and> is_object po")
    case False
    with Cons.prems e have "paths_loop cwd b f es (YMap (K @ [(''paths'', YMap P)]), n) = Inr (doc', n')"
      by auto
    then show ?thesis by (rule Cons.IH)
  next
    case True
    with Cons.prems e obtain d1 n1 where
      m: "methods_loop cwd b f a (map fst (own_entries po)) (YMap (K @ [(''paths'', YMap P)]), n) = Inr (d1, n1)"
      and r: "paths_loop cwd b f es (d1, n1) = Inr (doc', n')"
      by (auto split: sum.splits)
    from methods_loop_framed [OF assms m] obtain P1 where "d1 = YMap (K @ [(''paths'', YMap P1)])" by blast
    with r show ?thesis by (auto intro: Cons.IH)
  qed
qed

lemma files_loop_framed:
  assumes "''paths'' \<notin> set (map fst K)"
  shows "files_loop fs cwd b files ((YMap (K @ [(''paths'', YMap P)]), n), log) = Inr ((doc', n'), log')
           \<Longrightarrow> \<exists>P'. doc' = YMap (K @ [(''paths'', YMap P')])"
proof (induction files arbitrary: P n log)
  case Nil
  then show ?case by auto
next
  case (Cons f files)
  obtain pathFile l where l: "loadYaml fs f = (pathFile, l)" by (cases "loadYaml fs f")
  show ?case
  proof (cases "\<exists>paths. get_prop pathFile ''paths'' = Some paths \<and> truthy paths \<and> is_object paths")
    case False
    with Cons.prems l have "files_loop fs cwd b files ((YMap (K @ [(''paths'', YMap P)]), n), log @ l) = Inr ((doc', n'), log')"
      by (auto split: option.splits)
    then show ?thesis by (rule Cons.IH)
  next
    case True
    then obtain paths where p: "get_prop pathFile ''paths'' = Some paths" "truthy paths \<and> is_object paths"
      by blast
    with Cons.prems l obtain d1 n1 where
      m: "paths_loop cwd b f (own_entries paths) (YMap (K @ [(''paths'', YMap P)]), n) = Inr (d1, n1)"
      and r: "files_loop fs cwd b files ((d1, n1), log @ l) = Inr ((doc', n'), log')"
      by (auto split: sum.splits)
    from paths_loop_framed [OF assms m] obtain P1 where "d1 = YMap (K @ [(''paths'', YMap P1)])" by blast
    with r show ?thesis by (auto intro: Cons.IH)
  qed
qed

lemma files_loop_log:
  "files_loop fs cwd b files (st, log) =
     (case files_loop fs cwd b files (st, []) of
        Inl e \<Rightarrow> Inl e
      | Inr (st', l) \<Rightarrow> Inr (st', log @ l))"
proof (induction files arbitrary: st log)
  case Nil
  show ?case by simp
next
  case (Cons f files)
  obtain pathFile l where l: "loadYaml fs f = (pathFile, l)" by (cases "loadYaml fs f")
  have step: "\<And>st1. files_loop fs cwd b files (st1, log @ l) =
     (case files_loop fs cwd b files (st1, [] @ l) of
        Inl e \<Rightarrow> Inl e
      | Inr (st', l') \<Rightarrow> Inr (st', log @ l'))"
  proof -
    fix st1
    show "files_loop fs cwd b files (st1, log @ l) =
     (case files_loop fs cwd b files (st1, [] @ l) of
        Inl e \<Rightarrow> Inl e
      | Inr (st', l') \<Rightarrow> Inr (st', log @ l'))"
      unfolding Cons.IH [of st1 "log @ l"] Cons.IH [of st1 "[] @ l"]
      by (simp split: sum.splits prod.splits)
  qed
  show ?case
    using l step by (simp split: option.splits sum.splits)
qed


lemma rebuild_log:
  "fst (rebuild fs cwd p files log) = fst (rebuild fs cwd p files [])
   \<and> fst (snd (rebuild fs cwd p files log)) = fst (snd (rebuild fs cwd p files []))"
proof -
  obtain d l1 where l: "loadYaml fs p = (d, l1)" by (cases "loadYaml fs p")
  show ?thesis
    unfolding rebuild_def l prod.case
      files_loop_log [of fs cwd "path_dirname p" files "(d, 0)" "log @ l1"]
      files_loop_log [of fs cwd "path_dirname p" files "(d, 0)" "[] @ l1"]
    by (simp split: sum.splits prod.splits)
qed

lemma collect_and_rebuild_log:
  "fst (collect_and_rebuild fs cwd p log) = fst (collect_and_rebuild fs cwd p [])
   \<and> fst (snd (collect_and_rebuild fs cwd p log)) = fst (snd (collect_and_rebuild fs cwd p []))"
proof -
  let ?d = "path_join [path_dirname p, ''paths'']"
  obtain files l2 where w: "walkDir ?d (tree_at fs ?d) [] = (files, l2)"
    by (cases "walkDir ?d (tree_at fs ?d) []")
  from rebuild_log [of fs cwd p files "log @ l2"] rebuild_log [of fs cwd p files "[] @ l2"]
  have "fst (rebuild fs cwd p files (log @ l2)) = fst (rebuild fs cwd p files ([] @ l2))"
    and "fst (snd (rebuild fs cwd p files (log @ l2))) = fst (snd (rebuild fs cwd p files ([] @ l2)))"
    by simp_all
  with w show ?thesis by (simp add: collect_and_rebuild_def Let_def)
qed

lemma collect_and_rebuild_framed:
  assumes nk: "''paths'' \<notin> set (map fst K)"
    and fa: "file_at fs p = Some (Text (YMap (K @ [(''paths'', YMap [])])))"
    and r: "collect_and_rebuild fs cwd p log = (Success, fs1, log1)"
  shows "\<exists>P. fs1 = fs\<lparr>file_at := (file_at fs)(p \<mapsto> Text (YMap (K @ [(''paths'', YMap P)])))\<rparr>"
proof -
  let ?d = "path_join [path_dirname p, ''paths'']"
  obtain files l2 where w: "walkDir ?d (tree_at fs ?d) [] = (files, l2)"
    by (cases "walkDir ?d (tree_at fs ?d) []")
  from r have ex: "existsSync fs ?d"
    by (auto simp: collect_and_rebuild_def Let_def split: if_splits)
  show ?thesis
  proof (cases "files = []")
    case True
    with r w ex have "fs1 = fs" by (simp add: collect_and_rebuild_def Let_def)
    moreover from fa have "fs = fs\<lparr>file_at := (file_at fs)(p \<mapsto> Text (YMap (K @ [(''paths'', YMap [])])))\<rparr>"
      by (simp add: map_upd_triv)
    ultimately show ?thesis by metis
  next
    case False
    with r w ex have rb: "rebuild fs cwd p files (log @ l2) = (Success, fs1, log1)"
      by (simp add: collect_and_rebuild_def Let_def)
    from fa have l: "loadYaml fs p = (YMap (K @ [(''paths'', YMap [])]), [])"
      by (simp add: loadYaml_def)
    from rb l obtain doc' n l3 where
      fl: "files_loop fs cwd (path_dirname p) files ((YMap (K @ [(''paths'', YMap [])]), 0), (log @ l2) @ []) = Inr ((doc', n), l3)"
      and sv: "fst (saveYaml fs p doc') = fs1" "fst (snd (saveYaml fs p doc'))"
      by (auto simp: rebuild_def split: sum.splits prod.splits if_splits)
    from files_loop_framed [OF nk fl] obtain P where d: "doc' = YMap (K @ [(''paths'', YMap P)])"
      by blast
    from sv have "fs1 = fs\<lparr>file_at := (file_at fs)(p \<mapsto> Text doc')\<rparr>"
      by (auto simp: saveYaml_def split: if_splits)
    with d show ?thesis by blast
  qed
qed

text \<open>
  Two runs in a row agree whenever the \<open>paths\<close> key of the main specification is absent or
  has a truthy value at the start: the first run then leaves \<open>paths\<close> as the last key, step 1
  of the second run restores the cleared document of the first, and steps 2 and 3 are a
  function of the file system that step 1 leaves.
\<close>

lemma update_idempotent:
  assumes l: "fst (loadYaml fs p) = YMap kvs"
    and pv: "map_of kvs ''paths'' = None \<or> truthy_opt (map_of kvs ''paths'')"
    and r1: "main fs cwd p = (Success, fs1, log1)"
  shows "fst (main fs1 cwd p) = Success \<and> file_at (fst (snd (main fs1 cwd p))) p = file_at fs1 p"
proof -
  define K where "K = obj_delete ''paths'' kvs"
  have nk: "''paths'' \<notin> set (map fst K)" unfolding K_def by (rule obj_delete_absent)
  let ?c = "YMap (K @ [(''paths'', YMap [])])"
  let ?fsc = "fs\<lparr>file_at := (file_at fs)(p \<mapsto> Text ?c)\<rparr>"
  have "(if truthy_opt (map_of kvs ''paths'') then obj_delete ''paths'' kvs else kvs) = K"
    using pv by (auto simp: K_def obj_delete_id)
  then have c: "clear_paths (YMap kvs) = Inr ?c"
    using nk by (simp add: obj_set_absent)
  have w: "writable fs p"
  proof (rule ccontr)
    assume "\<not> writable fs p"
    then have "fst (main fs cwd p) = Failure" by (rule main_not_writable)
    with r1 show False by simp
  qed
  obtain d0 l0 where ld: "loadYaml fs p = (d0, l0)" by (cases "loadYaml fs p")
  with l have d0: "d0 = YMap kvs" by simp
  have m1: "main fs cwd p = collect_and_rebuild ?fsc cwd p (l0 @ [])"
    using ld d0 c w by (simp add: main_def saveYaml_def)
  have fa: "file_at ?fsc p = Some (Text ?c)" by simp
  from r1 m1 have "collect_and_rebuild ?fsc cwd p (l0 @ []) = (Success, fs1, log1)" by simp
  from collect_and_rebuild_framed [OF nk fa this] obtain P where
    fs1: "fs1 = ?fsc\<lparr>file_at := (file_at ?fsc)(p \<mapsto> Text (YMap (K @ [(''paths'', YMap P)])))\<rparr>"
    by blast
  have l2: "loadYaml fs1 p = (YMap (K @ [(''paths'', YMap P)]), [])"
    by (simp add: fs1 loadYaml_def)
  have c2: "clear_paths (YMap (K @ [(''paths'', YMap P)])) = Inr ?c"
    using nk map_of_last [OF nk, of "YMap P"]
    by (simp del: map_of_append add: obj_delete_last obj_set_absent)
  have w2: "writable fs1 p" using w by (simp add: fs1)
  have "fs1\<lparr>file_at := (file_at fs1)(p \<mapsto> Text ?c)\<rparr> = ?fsc" by (simp add: fs1)
  with l2 c2 w2 have m2: "main fs1 cwd p = collect_and_rebuild ?fsc cwd p ([] @ [])"
    by (simp add: main_def saveYaml_def)
  from collect_and_rebuild_log [of ?fsc cwd p "l0 @ []"] collect_and_rebuild_log [of ?fsc cwd p "[] @ []"]
  have "fst (main fs1 cwd p) = fst (main fs cwd p)"
    and "fst (snd (main fs1 cwd p)) = fst (snd (main fs cwd p))"
    unfolding m1 m2 by simp_all
  with r1 show ?thesis by simp
qed


text \<open>
  Claim C3 fails on a main specification whose \<open>paths\<close> key is present with a null value
  and is not the last key. The first run does not delete the key (its value is falsy), so
  the assignment keeps it in place and the references are written between \<open>openapi\<close> and
  \<open>info\<close>; the second run finds a truthy \<open>paths\<close>, deletes it and appends it again, so the
  same references are written behind \<open>info\<close>. The two documents differ in the order of their
  keys. This is the only way in which two runs differ (\<open>update_idempotent\<close> above).
\<close>

theorem update_twice_differs:
  "main_spec_after (main (docs_tree blank_paths_spec users_yaml orders_yaml) ''/work'' ''api/api-docs.yaml'')
        ''api/api-docs.yaml''
      = Some (Text (YMap [(''openapi'', YStr ''3.0.0''),
          (''paths'', YMap [
             (''/x'', YMap [(''get'', ref_object ''./paths/b.yaml#/paths/~1x/get''),
                            (''POST'', ref_object ''./paths/a.yaml#/paths/~1x/POST'')]),
             (''/y/z'', YMap [(''put'', ref_object ''./paths/b.yaml#/paths/~1y~1z/put'')])]),
          (''info'', YMap [(''version'', YStr ''1.0.0'')])]))
   \<and> main_spec_after
        (main (fst (snd (main (docs_tree blank_paths_spec users_yaml orders_yaml) ''/work''
                           ''api/api-docs.yaml'')))
           ''/work'' ''api/api-docs.yaml'')
        ''api/api-docs.yaml''
      = Some (Text (YMap [(''openapi'', YStr ''3.0.0''),
          (''info'', YMap [(''version'', YStr ''1.0.0'')]),
          (''paths'', YMap [
             (''/x'', YMap [(''get'', ref_object ''./paths/b.yaml#/paths/~1x/get''),
                            (''POST'', ref_object ''./paths/a.yaml#/paths/~1x/POST'')]),
             (''/y/z'', YMap [(''put'', ref_object ''./paths/b.yaml#/paths/~1y~1z/put'')])])]))
   \<and> fst (main (docs_tree blank_paths_spec users_yaml orders_yaml) ''/work'' ''api/api-docs.yaml'')
        = Success"
  by code_simp

subsection \<open>Relative references\<close>

lemma js_split_char_none: "c \<notin> set x \<Longrightarrow> js_split [c] x = [x]"
  by (induction x) (auto split: list.splits)

lemma js_split_char_append:
  "c \<notin> set x \<Longrightarrow> js_split [c] (x @ c # r) = x # js_split [c] r"
  by (induction x) (auto split: list.splits)

lemma js_join_Cons:
  "js_join sep (x # xs) = (if xs = [] then x else x @ sep @ js_join sep xs)"
  by (cases xs) simp_all

lemma js_split_join:
  "list_all (\<lambda>seg. CHR ''/'' \<notin> set seg) segs \<Longrightarrow> segs \<noteq> [] \<Longrightarrow>
   js_split ''/'' (js_join ''/'' segs) = segs"
proof (induction segs)
  case Nil
  then show ?case by simp
next
  case (Cons x xs)
  show ?case
  proof (cases "xs = []")
    case True
    with Cons.prems show ?thesis by (simp add: js_split_char_none)
  next
    case False
    with Cons have "js_split ''/'' (js_join ''/'' xs) = xs" by simp
    with Cons.prems False show ?thesis
      by (simp add: js_join_Cons js_split_char_append del: js_split.simps)
  qed
qed

lemma js_split_pieces: "list_all (\<lambda>seg. c \<notin> set seg) (js_split [c] s)"
  by (induction s) (auto split: list.splits)

lemma norm_segments_clean_id:
  "list_all clean_segment segs \<Longrightarrow> norm_segments a kept segs = rev kept @ segs"
  by (induction segs arbitrary: kept) (auto simp: clean_segment_def)

lemma norm_segments_clean:
  "list_all (\<lambda>seg. CHR ''/'' \<notin> set seg) segs \<Longrightarrow> list_all clean_segment kept \<Longrightarrow>
   list_all clean_segment (norm_segments False kept segs)"
proof (induction segs arbitrary: kept)
  case Nil
  then show ?case by simp
next
  case (Cons seg segs)
  then show ?case by (cases kept) (auto simp: clean_segment_def)
qed

lemma resolved_segments_clean: "list_all clean_segment (resolved_segments cwd p)"
  unfolding resolved_segments_def
  by (rule norm_segments_clean) (simp_all add: js_split_pieces)

lemma clean_no_slash: "list_all clean_segment segs \<Longrightarrow> list_all (\<lambda>seg. CHR ''/'' \<notin> set seg) segs"
  by (induction segs) (auto simp: clean_segment_def)

lemma resolved_segments_resolve:
  "resolved_segments cwd (path_resolve cwd p) = resolved_segments cwd p"
proof -
  let ?segs = "resolved_segments cwd p"
  have c: "list_all clean_segment ?segs" by (rule resolved_segments_clean)
  have "norm_segments False [] (js_split ''/'' (''/'' @ js_join ''/'' ?segs)) = ?segs"
  proof (cases "?segs = []")
    case True
    then show ?thesis by simp
  next
    case False
    have "js_split ''/'' (''/'' @ js_join ''/'' ?segs) = [] # js_split ''/'' (js_join ''/'' ?segs)"
      by simp
    also have "js_split ''/'' (js_join ''/'' ?segs) = ?segs"
      using clean_no_slash [OF c] False by (rule js_split_join)
    finally show ?thesis using c by (simp add: norm_segments_clean_id)
  qed
  then have h: "norm_segments False [] (js_split ''/'' (path_resolve cwd p)) = ?segs"
    by (simp only: path_resolve_def)
  have abs: "isAbsolute (path_resolve cwd p)"
    by (simp add: path_resolve_def isAbsolute_def)
  have "resolved_segments cwd (path_resolve cwd p)
          = norm_segments False [] (js_split ''/'' (path_resolve cwd p))"
    unfolding resolved_segments_def [of cwd "path_resolve cwd p"] using abs by simp
  with h show ?thesis by simp
qed

lemma js_join_prefix: "prefix (js_join sep xs) (js_join sep (xs @ ys))"
proof (induction xs)
  case Nil
  show ?case by simp
next
  case (Cons x xs)
  show ?case
  proof (cases "xs = []")
    case True
    then show ?thesis by (cases ys) simp_all
  next
    case False
    with Cons show ?thesis by (simp add: js_join_Cons)
  qed
qed

lemma drop_common_prefix: "drop_common bs (bs @ rest) = ([], rest)"
  by (induction bs) simp_all

text \<open>
  For a file under the base directory the reference is \<open>./\<close> followed by the segments of
  the file below the base; for a file whose resolved path does not start with the resolved
  base the path is returned as given.
\<close>

lemma getRelativePath_under:
  assumes "is_under cwd filePath baseDir"
  shows "getRelativePath cwd filePath baseDir =
           ''./'' @ js_join ''/'' (drop (length (resolved_segments cwd baseDir))
                                      (resolved_segments cwd filePath))"
proof -
  let ?b = "resolved_segments cwd baseDir" and ?f = "resolved_segments cwd filePath"
  from assms obtain rest where f: "?f = ?b @ rest" by (auto simp: is_under_def prefix_def)
  have "prefix (js_join ''/'' ?b) (js_join ''/'' ?f)" unfolding f by (rule js_join_prefix)
  then have s: "startsWith (path_resolve cwd filePath) (path_resolve cwd baseDir)"
    by (simp add: startsWith_def path_resolve_def)
  have "path_relative cwd (path_resolve cwd baseDir) (path_resolve cwd filePath) = js_join ''/'' rest"
    by (simp add: path_relative_def resolved_segments_resolve f drop_common_prefix)
  with s f show ?thesis by (simp add: getRelativePath_def Let_def)
qed

lemma getRelativePath_unrelated:
  "\<not> prefix (path_resolve cwd baseDir) (path_resolve cwd filePath) \<Longrightarrow>
   getRelativePath cwd filePath baseDir = filePath"
  by (simp add: getRelativePath_def Let_def startsWith_def)



subsection \<open>The walk\<close>





end
